theory Spec2Isabelle
  imports Main "HOL-Library.AList" "HOL-Library.List_Lexorder" "HOL-Library.Char_ord"
    "HOL-Library.Multiset"
begin

section \<open>Rows, values and generators\<close>

text \<open>
  A row is a Python \<open>dict[str, Any]\<close>. Dictionaries keep insertion order and have unique
  keys, so a row is an association list whose first components are distinct; two rows are
  equal as Python dictionaries when their \<open>map_of\<close> agree. The value domain covers
  \<open>None\<close>, integers (Python's \<open>bool\<close> is the integers 0 and 1) and strings whose
  characters are code points below 256 (a \<open>char\<close> is its code point); floats,
  coordinate lists and characters from 256 on are outside the model.
\<close>

datatype val = VNone | VInt int | VStr string

datatype error = KeyError | TypeError | AttributeError | NonTermination

type_synonym row = "(string \<times> val) list"

text \<open>
  What a generator delivers when it is consumed to its end: the rows it yields, then
  either normal exhaustion (\<open>None\<close>) or the exception that ended it.
\<close>

type_synonym 'a gen = "'a list \<times> error option"

definition yield_then :: "'a list \<Rightarrow> 'a gen \<Rightarrow> 'a gen" where
  "yield_then out g = (out @ fst g, snd g)"

text \<open>\<open>d[k] = v\<close> is \<open>AList.update k v d\<close>: overwrite in place or append.\<close>

definition dict_of_items :: "(string \<times> val) list \<Rightarrow> row" where
  "dict_of_items items = foldl (\<lambda>d (k, v). AList.update k v d) [] items"

text \<open>\<open>{**d1, **d2}\<close>\<close>

definition dict_merge :: "row \<Rightarrow> row \<Rightarrow> row" where
  "dict_merge d1 d2 = foldl (\<lambda>d (k, v). AList.update k v d) d1 d2"

text \<open>\<open>row.get(k)\<close>: \<open>None\<close> for a missing column.\<close>

definition row_get :: "row \<Rightarrow> string \<Rightarrow> val" where
  "row_get r k = (case map_of r k of None \<Rightarrow> VNone | Some v \<Rightarrow> v)"

text \<open>\<open>row[k]\<close>: raises \<open>KeyError\<close> for a missing column.\<close>

definition row_item :: "row \<Rightarrow> string \<Rightarrow> error + val" where
  "row_item r k = (case map_of r k of None \<Rightarrow> Inl KeyError | Some v \<Rightarrow> Inr v)"

text \<open>Python truthiness, as used by \<open>all(key)\<close>.\<close>

fun truthy :: "val \<Rightarrow> bool" where
  "truthy VNone = False"
| "truthy (VInt i) = (i \<noteq> 0)"
| "truthy (VStr s) = (s \<noteq> [])"

text \<open>\<open>[x.get(k) for k in keys]\<close>\<close>

definition keyt :: "string list \<Rightarrow> row \<Rightarrow> val list" where
  "keyt keys r = map (row_get r) keys"

section \<open>itertools.groupby\<close>

function groupby :: "('a \<Rightarrow> 'k) \<Rightarrow> 'a list \<Rightarrow> ('k \<times> 'a list) list" where
  "groupby key [] = []"
| "groupby key (x # xs) =
     (key x, x # takeWhile (\<lambda>y. key y = key x) xs)
       # groupby key (dropWhile (\<lambda>y. key y = key x) xs)"
  by pat_completeness auto
termination
  by (relation "measure (\<lambda>(key, xs). length xs)")
     (auto simp: length_dropWhile_le le_imp_less_Suc)

section \<open>Reducers\<close>

definition count_row :: "string \<Rightarrow> string list \<Rightarrow> val list \<Rightarrow> nat \<Rightarrow> row" where
  "count_row column group_key key n =
     AList.update column (VInt (int n)) (dict_of_items (zip group_key key))"

definition Count :: "string \<Rightarrow> string list \<Rightarrow> row list \<Rightarrow> row list" where
  "Count column group_key rows =
     concat (map (\<lambda>(key, group).
                    if list_all truthy key then [count_row column group_key key (length group)]
                    else [])
                 (groupby (\<lambda>x. map (row_get x) group_key) rows))"

section \<open>Graph and its executor\<close>

text \<open>
  \<open>run(**kwargs)\<close> passes the keyword sources to a source operation only; a unary or
  binary operation is called with the streams of its upstream graphs. An operation is a
  callable \<open>op(*streams, **kwargs)\<close>. The constructor \<open>Graph(*args)\<close> leaves
  \<open>operation\<close> at \<open>None\<close>; the builder methods set it.
\<close>

type_synonym sources = "string \<Rightarrow> row gen option"

type_synonym operation = "row gen list \<Rightarrow> sources \<Rightarrow> row gen"

datatype graph = Graph (operation: "operation option") (graphs: "graph list")

definition ReadIterFactory :: "string \<Rightarrow> operation" where
  "ReadIterFactory name streams kwargs =
     (case kwargs name of None \<Rightarrow> ([], Some KeyError) | Some g \<Rightarrow> g)"

definition graph_from_iter :: "string \<Rightarrow> graph" where
  "graph_from_iter name = Graph (Some (ReadIterFactory name)) []"

fun run :: "graph \<Rightarrow> sources \<Rightarrow> row gen" where
  "run (Graph None gs) kwargs = ([], Some TypeError)"
| "run (Graph (Some op) []) kwargs = op [] kwargs"
| "run (Graph (Some op) [g]) kwargs = op [run g kwargs] Map.empty"
| "run (Graph (Some op) (g0 # g1 # gs)) kwargs = op [run g0 kwargs, run g1 kwargs] Map.empty"

section \<open>Comparing key tuples\<close>

text \<open>
  Python compares two values of one kind natively and raises \<open>TypeError\<close> across kinds
  (and for two \<open>None\<close>). A tuple comparison skips the leading positions where the items
  are equal, compares the first differing pair, and falls back to the lengths.
\<close>

fun py_lt :: "val \<Rightarrow> val \<Rightarrow> error + bool" where
  "py_lt (VInt a) (VInt b) = Inr (a < b)"
| "py_lt (VStr a) (VStr b) = Inr (a < b)"
| "py_lt _ _ = Inl TypeError"

fun py_ge :: "val \<Rightarrow> val \<Rightarrow> error + bool" where
  "py_ge (VInt a) (VInt b) = Inr (a \<ge> b)"
| "py_ge (VStr a) (VStr b) = Inr (a \<ge> b)"
| "py_ge _ _ = Inl TypeError"

fun tuple_lt :: "val list \<Rightarrow> val list \<Rightarrow> error + bool" where
  "tuple_lt (x # xs) (y # ys) = (if x = y then tuple_lt xs ys else py_lt x y)"
| "tuple_lt [] (y # ys) = Inr True"
| "tuple_lt xs [] = Inr False"

fun tuple_ge :: "val list \<Rightarrow> val list \<Rightarrow> error + bool" where
  "tuple_ge (x # xs) (y # ys) = (if x = y then tuple_ge xs ys else py_ge x y)"
| "tuple_ge [] (y # ys) = Inr False"
| "tuple_ge xs [] = Inr True"

text \<open>\<open>tuple(row[k] for k in keys)\<close>\<close>

fun key_of :: "string list \<Rightarrow> row \<Rightarrow> error + val list" where
  "key_of [] r = Inr []"
| "key_of (k # ks) r =
     (case row_item r k of Inl e \<Rightarrow> Inl e
      | Inr v \<Rightarrow> (case key_of ks r of Inl e \<Rightarrow> Inl e | Inr vs \<Rightarrow> Inr (v # vs)))"

text \<open>
  The order in which a stream is called sorted. Inside one kind it is Python's order;
  \<open>None\<close> comes first and integers come before strings, which only matters where Python
  itself would refuse to compare.
\<close>

fun val_rank :: "val \<Rightarrow> nat" where
  "val_rank VNone = 0"
| "val_rank (VInt i) = 1"
| "val_rank (VStr s) = 2"

instantiation val :: linorder
begin

definition less_val :: "val \<Rightarrow> val \<Rightarrow> bool" where
  "less_val x y =
     (case (x, y) of (VInt a, VInt b) \<Rightarrow> a < b
      | (VStr a, VStr b) \<Rightarrow> a < b
      | _ \<Rightarrow> val_rank x < val_rank y)"

definition less_eq_val :: "val \<Rightarrow> val \<Rightarrow> bool" where
  "less_eq_val x y = (x < y \<or> x = y)"

instance
proof
  fix x y z :: val
  show "(x < y) = (x \<le> y \<and> \<not> y \<le> x)"
    by (cases x; cases y) (auto simp: less_val_def less_eq_val_def)
  show "x \<le> x"
    by (simp add: less_eq_val_def)
  show "x \<le> y \<Longrightarrow> y \<le> z \<Longrightarrow> x \<le> z"
    by (cases x; cases y; cases z) (auto simp: less_val_def less_eq_val_def)
  show "x \<le> y \<Longrightarrow> y \<le> x \<Longrightarrow> x = y"
    by (cases x; cases y) (auto simp: less_val_def less_eq_val_def)
  show "x \<le> y \<or> y \<le> x"
    by (cases x; cases y) (auto simp: less_val_def less_eq_val_def)
qed

end

text \<open>The kind of a value; a key column is homogeneous when all its values have one kind.\<close>

datatype kind = KNone | KInt | KStr

fun kind_of :: "val \<Rightarrow> kind" where
  "kind_of VNone = KNone"
| "kind_of (VInt i) = KInt"
| "kind_of (VStr s) = KStr"

text \<open>Row \<open>r\<close> has every key column, the i-th one holding a value of kind \<open>ts ! i\<close>.\<close>

definition well_keyed :: "string list \<Rightarrow> kind list \<Rightarrow> row \<Rightarrow> bool" where
  "well_keyed keys ts r = (map (\<lambda>k. map_option kind_of (map_of r k)) keys = map Some ts)"

section \<open>Joiners\<close>

definition overlapping_columns :: "string list \<Rightarrow> row \<Rightarrow> row \<Rightarrow> string set" where
  "overlapping_columns keys row_a row_b = (set (map fst row_a) \<inter> set (map fst row_b)) - set keys"

text \<open>\<open>{f"{k}{suffix}" if k in overlapping_columns else k: v for k, v in row.items()}\<close>\<close>

definition renamed :: "string set \<Rightarrow> string \<Rightarrow> string \<Rightarrow> string" where
  "renamed ov suffix k = (if k \<in> ov then k @ suffix else k)"

definition rename_row :: "string set \<Rightarrow> string \<Rightarrow> row \<Rightarrow> row" where
  "rename_row ov suffix r = dict_of_items (map (\<lambda>(k, v). (renamed ov suffix k, v)) r)"

definition join_rows :: "string set \<Rightarrow> string \<Rightarrow> string \<Rightarrow> row \<Rightarrow> row \<Rightarrow> row" where
  "join_rows ov suffix_a suffix_b row_a row_b =
     dict_merge (rename_row ov suffix_a row_a) (rename_row ov suffix_b row_b)"

text \<open>\<open>len(matched) > 0 and tuple(matched[0][k] for k in keys) == key\<close>\<close>

definition matched_has_key :: "string list \<Rightarrow> row list \<Rightarrow> val list \<Rightarrow> error + bool" where
  "matched_has_key keys matched key =
     (case matched of [] \<Rightarrow> Inr False
      | m # ms \<Rightarrow> (case key_of keys m of Inl e \<Rightarrow> Inl e | Inr km \<Rightarrow> Inr (km = key)))"

subsection \<open>InnerJoiner\<close>

text \<open>The second loop: the right input is exhausted, the left rows that remain are drained.\<close>

fun inner_drain ::
  "string list \<Rightarrow> string set \<Rightarrow> string \<Rightarrow> string \<Rightarrow> row list \<Rightarrow> row list \<Rightarrow> row gen" where
  "inner_drain keys ov sa sb matched [] = ([], None)"
| "inner_drain keys ov sa sb matched (row_a # as) =
     (case key_of keys row_a of Inl e \<Rightarrow> ([], Some e)
      | Inr key_a \<Rightarrow>
     (case matched_has_key keys matched key_a of Inl e \<Rightarrow> ([], Some e)
      | Inr c \<Rightarrow>
          yield_then (if c then map (join_rows ov sa sb row_a) matched else [])
                     (inner_drain keys ov sa sb matched as)))"

text \<open>
  The first loop. The lists are the current row followed by what its iterator still holds:
  an empty left list is the \<open>return\<close> on \<open>StopIteration\<close>, an empty right list is the
  \<open>break\<close>. If neither \<open>key_a < key_b\<close> nor \<open>key_a >= key_b\<close> held, the loop would
  repeat with nothing changed; the model ends that branch with \<open>NonTermination\<close>, and
  \<open>tuple_ge_of_not_lt\<close> below shows that it is never taken.
\<close>

fun inner_merge ::
  "string list \<Rightarrow> string set \<Rightarrow> string \<Rightarrow> string \<Rightarrow> row list \<Rightarrow> row list \<Rightarrow> row list \<Rightarrow> row gen"
where
  "inner_merge keys ov sa sb matched [] bs = ([], None)"
| "inner_merge keys ov sa sb matched (row_a # as) [] =
     inner_drain keys ov sa sb matched (row_a # as)"
| "inner_merge keys ov sa sb matched (row_a # as) (row_b # bs) =
     (case key_of keys row_a of Inl e \<Rightarrow> ([], Some e)
      | Inr key_a \<Rightarrow>
     (case key_of keys row_b of Inl e \<Rightarrow> ([], Some e)
      | Inr key_b \<Rightarrow>
     (case tuple_lt key_a key_b of Inl e \<Rightarrow> ([], Some e)
      | Inr lt \<Rightarrow>
          if lt then
            (case matched_has_key keys matched key_a of Inl e \<Rightarrow> ([], Some e)
             | Inr c \<Rightarrow>
                 yield_then (if c then map (join_rows ov sa sb row_a) matched else [])
                            (inner_merge keys ov sa sb matched as (row_b # bs)))
          else
            (case tuple_ge key_a key_b of Inl e \<Rightarrow> ([], Some e)
             | Inr ge \<Rightarrow>
                 if ge then
                   (case matched_has_key keys matched key_b of Inl e \<Rightarrow> ([], Some e)
                    | Inr c \<Rightarrow>
                        inner_merge keys ov sa sb
                          (if matched = [] \<or> c then matched @ [row_b] else [row_b])
                          (row_a # as) bs)
                 else ([], Some NonTermination)))))"

definition InnerJoiner ::
  "string \<Rightarrow> string \<Rightarrow> string list \<Rightarrow> row list \<Rightarrow> row list \<Rightarrow> row gen" where
  "InnerJoiner suffix_a suffix_b keys rows_a rows_b =
     (case rows_a of [] \<Rightarrow> ([], None)
      | row_a # as \<Rightarrow>
     (case rows_b of [] \<Rightarrow> ([], None)
      | row_b # bs \<Rightarrow>
          inner_merge keys (overlapping_columns keys row_a row_b) suffix_a suffix_b []
            rows_a rows_b))"

subsection \<open>LeftJoiner\<close>

text \<open>
  The inner \<open>while key_a >= key_b\<close>: it returns the matched rows, the current right row
  and what the right iterator still holds. The last argument is what the iterator holds
  on entry: when it is empty, \<open>next\<close> raises \<open>StopIteration\<close>, the loop breaks and the
  current right row stays.
\<close>

fun left_scan ::
  "string list \<Rightarrow> val list \<Rightarrow> row list \<Rightarrow> row \<Rightarrow> val list \<Rightarrow> row list
     \<Rightarrow> error + (row list \<times> row \<times> row list)" where
  "left_scan keys key_a matched row_b key_b [] =
     (case tuple_ge key_a key_b of Inl e \<Rightarrow> Inl e
      | Inr ge \<Rightarrow>
          if ge then Inr (if key_a = key_b then matched @ [row_b] else matched, row_b, [])
          else Inr (matched, row_b, []))"
| "left_scan keys key_a matched row_b key_b (b' # bs') =
     (case tuple_ge key_a key_b of Inl e \<Rightarrow> Inl e
      | Inr ge \<Rightarrow>
          if ge then
            (case key_of keys b' of Inl e \<Rightarrow> Inl e
             | Inr key_b' \<Rightarrow>
                 left_scan keys key_a
                   (if key_a = key_b then matched @ [row_b] else matched) b' key_b' bs')
          else Inr (matched, row_b, b' # bs'))"

text \<open>
  The outer loop, one turn per left row. \<open>matched_rows_b\<close> is empty at the head of every
  turn. The overlapping columns and the suffixes are computed but never read.
\<close>

fun left_loop :: "string list \<Rightarrow> row \<Rightarrow> row list \<Rightarrow> row list \<Rightarrow> row gen" where
  "left_loop keys row_b bs [] = ([], None)"
| "left_loop keys row_b bs (row_a # as) =
     (case key_of keys row_a of Inl e \<Rightarrow> ([], Some e)
      | Inr key_a \<Rightarrow>
     (case key_of keys row_b of Inl e \<Rightarrow> ([], Some e)
      | Inr key_b \<Rightarrow>
     (case left_scan keys key_a [] row_b key_b bs of Inl e \<Rightarrow> ([], Some e)
      | Inr (matched, row_b', bs') \<Rightarrow>
          yield_then (if matched \<noteq> [] then map (dict_merge row_a) matched else [row_a])
                     (left_loop keys row_b' bs' as))))"

definition LeftJoiner ::
  "string \<Rightarrow> string \<Rightarrow> string list \<Rightarrow> row list \<Rightarrow> row list \<Rightarrow> row gen" where
  "LeftJoiner suffix_a suffix_b keys rows_a rows_b =
     (case rows_a of [] \<Rightarrow> ([], None)
      | row_a # as \<Rightarrow>
     (case rows_b of [] \<Rightarrow> ([], None)
      | row_b # bs \<Rightarrow> left_loop keys row_b bs rows_a))"

subsection \<open>RightJoiner\<close>

fun right_scan ::
  "string list \<Rightarrow> val list \<Rightarrow> row list \<Rightarrow> row \<Rightarrow> val list \<Rightarrow> row list
     \<Rightarrow> error + (row list \<times> row \<times> val list \<times> row list)" where
  "right_scan keys key_b matched row_a key_a [] =
     (case tuple_ge key_b key_a of Inl e \<Rightarrow> Inl e
      | Inr ge \<Rightarrow>
          if ge then Inr (if key_a = key_b then matched @ [row_a] else matched, row_a, key_a, [])
          else Inr (matched, row_a, key_a, []))"
| "right_scan keys key_b matched row_a key_a (a' # as') =
     (case tuple_ge key_b key_a of Inl e \<Rightarrow> Inl e
      | Inr ge \<Rightarrow>
          if ge then
            (case key_of keys a' of Inl e \<Rightarrow> Inl e
             | Inr key_a' \<Rightarrow>
                 right_scan keys key_b
                   (if key_a = key_b then matched @ [row_a] else matched) a' key_a' as')
          else Inr (matched, row_a, key_a, a' # as'))"

fun right_loop :: "string list \<Rightarrow> row \<Rightarrow> val list \<Rightarrow> row list \<Rightarrow> row list \<Rightarrow> row gen" where
  "right_loop keys row_a key_a as [] = ([], None)"
| "right_loop keys row_a key_a as (row_b # bs) =
     (case key_of keys row_b of Inl e \<Rightarrow> ([], Some e)
      | Inr key_b \<Rightarrow>
     (case right_scan keys key_b [] row_a key_a as of Inl e \<Rightarrow> ([], Some e)
      | Inr (matched, row_a', key_a', as') \<Rightarrow>
          yield_then (if matched \<noteq> [] then map (\<lambda>m. dict_merge m row_b) matched else [row_b])
                     (right_loop keys row_a' key_a' as' bs)))"

definition RightJoiner ::
  "string \<Rightarrow> string \<Rightarrow> string list \<Rightarrow> row list \<Rightarrow> row list \<Rightarrow> row gen" where
  "RightJoiner suffix_a suffix_b keys rows_a rows_b =
     (case rows_a of [] \<Rightarrow> ([], None)
      | row_a # as \<Rightarrow>
     (case rows_b of [] \<Rightarrow> ([], None)
      | row_b # bs \<Rightarrow>
     (case key_of keys row_a of Inl e \<Rightarrow> ([], Some e)
      | Inr key_a \<Rightarrow> right_loop keys row_a key_a as rows_b)))"

subsection \<open>OuterJoiner\<close>

text \<open>\<open>{tuple(row[k] for k in keys): row for row in rows}\<close>, extending \<open>d\<close>.\<close>

fun key_dict ::
  "string list \<Rightarrow> (val list \<times> row) list \<Rightarrow> row list \<Rightarrow> error + (val list \<times> row) list" where
  "key_dict keys d [] = Inr d"
| "key_dict keys d (r # rows) =
     (case key_of keys r of Inl e \<Rightarrow> Inl e
      | Inr k \<Rightarrow> key_dict keys (AList.update k r d) rows)"

text \<open>
  The order in which Python walks a set is not fixed by the language; the model walks a
  set built from a list in order of first appearance, and the statements about the outer
  join do not depend on that order.
\<close>

definition set_list :: "'a list \<Rightarrow> 'a list" where
  "set_list xs = rev (remdups (rev xs))"

text \<open>
  \<open>{k: row_a.get(k, row_b.get(k)) for k in set(row_a.keys()) | set(row_b.keys())}\<close>
\<close>

definition outer_merge :: "row \<Rightarrow> row \<Rightarrow> row" where
  "outer_merge row_a row_b =
     map (\<lambda>k. (k, case map_of row_a k of Some v \<Rightarrow> v | None \<Rightarrow> row_get row_b k))
         (set_list (map fst row_a @ map fst row_b))"

definition dict_get_row :: "(val list \<times> row) list \<Rightarrow> val list \<Rightarrow> row" where
  "dict_get_row d key = (case map_of d key of None \<Rightarrow> [] | Some r \<Rightarrow> r)"


definition OuterJoiner ::
  "string \<Rightarrow> string \<Rightarrow> string list \<Rightarrow> row list \<Rightarrow> row list \<Rightarrow> row gen" where
  "OuterJoiner suffix_a suffix_b keys rows_a rows_b =
     (case key_dict keys [] rows_a of Inl e \<Rightarrow> ([], Some e)
      | Inr dict_a \<Rightarrow>
     (case key_dict keys [] rows_b of Inl e \<Rightarrow> ([], Some e)
      | Inr dict_b \<Rightarrow>
          (map (\<lambda>key. outer_merge (dict_get_row dict_a key) (dict_get_row dict_b key))
               (set_list (map fst dict_a @ map fst dict_b)), None)))"

subsection \<open>What a join is expected to emit\<close>

text \<open>
  The full product inside every equal-key block, in stream order: for each left row in
  turn, one combined row per right row that carries the same key tuple.
\<close>

definition block_product ::
  "(row \<Rightarrow> row \<Rightarrow> row) \<Rightarrow> string list \<Rightarrow> row list \<Rightarrow> row list \<Rightarrow> row list" where
  "block_product f keys rows_a rows_b =
     concat (map (\<lambda>a. map (f a) (filter (\<lambda>b. keyt keys b = keyt keys a) rows_b)) rows_a)"

text \<open>The overlapping columns as the joiners compute them: from the two first rows.\<close>

definition first_overlap :: "string list \<Rightarrow> row list \<Rightarrow> row list \<Rightarrow> string set" where
  "first_overlap keys rows_a rows_b =
     (case rows_a of [] \<Rightarrow> {}
      | row_a # as \<Rightarrow>
     (case rows_b of [] \<Rightarrow> {} | row_b # bs \<Rightarrow> overlapping_columns keys row_a row_b))"

section \<open>Mappers\<close>

subsection \<open>Split\<close>

text \<open>
  Whitespace as \<open>\s\<close> and \<open>str.strip()\<close> see it among the code points below 256: 9 to
  13, 28 to 32, 133 and 160.
\<close>

definition is_space :: "char \<Rightarrow> bool" where
  "is_space c =
     (let n = (of_char c :: nat)
      in (9 \<le> n \<and> n \<le> 13) \<or> (28 \<le> n \<and> n \<le> 32) \<or> n = 133 \<or> n = 160)"

definition strip :: "string \<Rightarrow> string" where
  "strip s = rev (dropWhile is_space (rev (dropWhile is_space s)))"

text \<open>
  The separator is a regular expression in the source. The model covers a separator that
  is a class of single characters, as the default \<open>\s\<close> is: \<open>finditer\<close> then yields
  one match \<open>(start, end)\<close> for every character of the class, from left to right.
\<close>

definition finditer :: "(char \<Rightarrow> bool) \<Rightarrow> string \<Rightarrow> (nat \<times> nat) list" where
  "finditer separator text =
     map (\<lambda>i. (i, Suc i)) (filter (\<lambda>i. separator (text ! i)) [0..<length text])"

text \<open>\<open>text[i:j]\<close> for \<open>0 \<le> i\<close>, \<open>0 \<le> j\<close>\<close>

definition slice :: "string \<Rightarrow> nat \<Rightarrow> nat \<Rightarrow> string" where
  "slice text i j = take (j - i) (drop i text)"

text \<open>The loop over the matches, then the rest after the last match.\<close>

fun split_loop :: "row \<Rightarrow> string \<Rightarrow> string \<Rightarrow> nat \<Rightarrow> (nat \<times> nat) list \<Rightarrow> row list" where
  "split_loop row column text last_end [] =
     (if last_end < length text
      then [AList.update column (VStr (strip (drop last_end text))) row] else [])"
| "split_loop row column text last_end ((start, end) # matches) =
     (if start \<noteq> 0
      then [AList.update column (VStr (strip (slice text last_end start))) row] else [])
     @ split_loop row column text end matches"

definition Split :: "string \<Rightarrow> (char \<Rightarrow> bool) \<Rightarrow> row \<Rightarrow> row gen" where
  "Split column separator row =
     (case map_of row column of
        None \<Rightarrow> ([row], None)
      | Some (VStr text) \<Rightarrow> (split_loop row column text 0 (finditer separator text), None)
      | Some v \<Rightarrow> ([], Some TypeError))"

subsection \<open>Mappers that assign into the row they are given\<close>

text \<open>
  A row is an object: the caller's source and the stream hold references to it. The heap
  maps a reference to the dictionary it names. A mapper takes the reference of its input
  row and returns the references it yields together with the heap it leaves behind.
\<close>

type_synonym ref = nat

type_synonym heap = "ref \<Rightarrow> row"

text \<open>\<open>string.punctuation\<close>: the codes 33 to 47, 58 to 64, 91 to 96 and 123 to 126.\<close>

definition is_punctuation :: "char \<Rightarrow> bool" where
  "is_punctuation c =
     (let n = (of_char c :: nat)
      in (33 \<le> n \<and> n \<le> 47) \<or> (58 \<le> n \<and> n \<le> 64) \<or> (91 \<le> n \<and> n \<le> 96)
         \<or> (123 \<le> n \<and> n \<le> 126))"

text \<open>
  \<open>str.lower()\<close> on the code points below 256: the capital letters are 65 to 90 and 192
  to 222 without 215 (the multiplication sign), each 32 below its small letter; every
  other character stays.
\<close>

definition lower_char :: "char \<Rightarrow> char" where
  "lower_char c =
     (let n = (of_char c :: nat)
      in if (65 \<le> n \<and> n \<le> 90) \<or> (192 \<le> n \<and> n \<le> 222 \<and> n \<noteq> 215)
         then char_of (n + 32) else c)"

definition FilterPunctuation :: "string \<Rightarrow> ref \<Rightarrow> heap \<Rightarrow> ref gen \<times> heap" where
  "FilterPunctuation column r h =
     (case row_item (h r) column of
        Inl e \<Rightarrow> (([], Some e), h)
      | Inr (VStr s) \<Rightarrow>
          (([r], None),
           h(r := AList.update column (VStr (filter (\<lambda>c. \<not> is_punctuation c) s)) (h r)))
      | Inr v \<Rightarrow> (([], Some AttributeError), h))"

definition LowerCase :: "string \<Rightarrow> ref \<Rightarrow> heap \<Rightarrow> ref gen \<times> heap" where
  "LowerCase column r h =
     (case row_item (h r) column of
        Inl e \<Rightarrow> (([], Some e), h)
      | Inr (VStr s) \<Rightarrow> (([r], None), h(r := AList.update column (VStr (map lower_char s)) (h r)))
      | Inr v \<Rightarrow> (([], Some AttributeError), h))"

definition BinaryOperation ::
  "(row \<Rightarrow> error + val) \<Rightarrow> string \<Rightarrow> ref \<Rightarrow> heap \<Rightarrow> ref gen \<times> heap" where
  "BinaryOperation op column r h =
     (case op (h r) of
        Inl e \<Rightarrow> (([], Some e), h)
      | Inr v \<Rightarrow> (([r], None), h(r := AList.update column v (h r))))"

text \<open>
  \<open>Map.__call__\<close>: \<open>for row in rows: yield from self.mapper(row)\<close>, consumed to the end
  or to the first exception.
\<close>

fun Map_call ::
  "(ref \<Rightarrow> heap \<Rightarrow> ref gen \<times> heap) \<Rightarrow> ref list \<Rightarrow> heap \<Rightarrow> ref gen \<times> heap" where
  "Map_call mapper [] h = (([], None), h)"
| "Map_call mapper (r # rs) h =
     (case mapper r h of
        ((out, Some e), h') \<Rightarrow> ((out, Some e), h')
      | ((out, None), h') \<Rightarrow>
          (case Map_call mapper rs h' of (g, h'') \<Rightarrow> (yield_then out g, h'')))"

section \<open>External sort\<close>

text \<open>
  The module \<open>external_sort\<close> with the class \<open>ExternalSort\<close>, which \<open>Graph.sort\<close>
  instantiates, is not among the sources. The specification (4.6) describes it: the input
  is consumed in chunks of at most \<open>B\<close> rows, each chunk is sorted in memory by a stable
  sort and becomes a run; the runs are merged through a min-heap keyed by the key tuple and
  the run index, so that among equal key tuples the run with the smaller index is served
  first.
\<close>

text \<open>
  Modelled from the spec: the chunking step of \<open>ExternalSort\<close>, ``consume input in chunks
  of bounded size B (rows)''. A bound of 0 is read as 1.
\<close>

function chunks :: "nat \<Rightarrow> 'a list \<Rightarrow> 'a list list" where
  "chunks B xs = (if xs = [] then [] else take (max 1 B) xs # chunks B (drop (max 1 B) xs))"
  by pat_completeness auto
termination
  by (relation "measure (\<lambda>(B, xs). length xs)") auto

text \<open>
  Modelled from the spec: popping the min-heap of \<open>ExternalSort\<close>, ``keyed by the tuple
  and run-index (run-index breaks ties)''. Of the heads of the non-empty runs it takes the
  one least in (key, run index); the result is that row and the runs without it.
\<close>

fun pop_min :: "('a \<Rightarrow> 'k::linorder) \<Rightarrow> 'a list list \<Rightarrow> ('a \<times> 'a list list) option" where
  "pop_min key [] = None"
| "pop_min key ([] # runs) =
     (case pop_min key runs of None \<Rightarrow> None | Some (x, runs') \<Rightarrow> Some (x, [] # runs'))"
| "pop_min key ((y # ys) # runs) =
     (case pop_min key runs of
        None \<Rightarrow> Some (y, ys # runs)
      | Some (x, runs') \<Rightarrow>
          if key y \<le> key x then Some (y, ys # runs) else Some (x, (y # ys) # runs'))"

text \<open>
  Modelled from the spec: the k-way merge of \<open>ExternalSort\<close>, ``k-way merge all run
  files via a min-heap'', emitting the popped rows until every run is empty.
\<close>

function kmerge :: "('a \<Rightarrow> 'k::linorder) \<Rightarrow> 'a list list \<Rightarrow> 'a list" where
  "kmerge key runs =
     (case pop_min key runs of None \<Rightarrow> [] | Some (x, runs') \<Rightarrow> x # kmerge key runs')"
  by pat_completeness auto
termination
proof (relation "measure (\<lambda>(key, runs). length (concat runs))")
  show "wf (measure (\<lambda>(key :: 'a \<Rightarrow> 'k::linorder, runs). length (concat runs)))" by simp
next
  fix key :: "'a \<Rightarrow> 'k::linorder" and runs :: "'a list list" and p x runs'
  assume "pop_min key runs = Some p" and "(x, runs') = p"
  then have "pop_min key runs = Some (x, runs')" by simp
  then have "length (concat runs) = Suc (length (concat runs'))"
  proof (induction key runs arbitrary: x runs' rule: pop_min.induct)
    case (1 key)
    then show ?case by simp
  next
    case (2 key runs)
    then show ?case by (auto split: option.splits)
  next
    case (3 key y ys runs)
    then show ?case by (auto split: option.splits if_splits)
  qed
  then show "((key, runs'), (key, runs)) \<in> measure (\<lambda>(key, runs). length (concat runs))"
    by simp
qed

text \<open>
  Modelled from the spec: the caller's obligation of \<open>ExternalSort\<close>, ``values of
  compatible kinds compare natively; cross-kind comparisons are not expected (caller
  ensures column types are homogeneous per column)''. The key tuples of the rows can be
  compared with each other: no comparison of two of them raises \<open>TypeError\<close>.
\<close>

definition comparable_keys :: "string list \<Rightarrow> row list \<Rightarrow> bool" where
  "comparable_keys keys rows =
     (\<forall>r\<in>set rows. \<forall>s\<in>set rows. tuple_lt (keyt keys r) (keyt keys s) \<noteq> Inl TypeError)"

text \<open>
  Modelled from the spec: \<open>ExternalSort(keys)\<close> as an operation on one stream. The sort
  emits only after its input is exhausted, so an exception of the upstream surfaces with
  no row emitted; the key tuple is \<open>(row[k] for k in keys)\<close>, and a row without a key
  column ends the sort with \<open>KeyError\<close> (the kind EKeyMissing). Where two key tuples
  cannot be compared the sort ends with \<open>TypeError\<close> (the kind EType, ``value in a column
  cannot be compared as required''); the specification does not say how many rows a sort
  has emitted by then, and the model emits none. Otherwise each chunk is sorted by the
  library's stable insertion sort and the runs are merged; on key tuples that can be
  compared with each other the order used is the one Python's comparison gives.
\<close>

definition ExternalSort :: "nat \<Rightarrow> string list \<Rightarrow> row gen \<Rightarrow> row gen" where
  "ExternalSort B keys rows =
     (case snd rows of
        Some e \<Rightarrow> ([], Some e)
      | None \<Rightarrow>
          if \<exists>r\<in>set (fst rows). key_of keys r = Inl KeyError then ([], Some KeyError)
          else if \<not> comparable_keys keys (fst rows) then ([], Some TypeError)
          else (kmerge (keyt keys) (map (sort_key (keyt keys)) (chunks B (fst rows))), None))"

text \<open>\<open>Graph.sort\<close>; the chunk bound is a parameter of the model.\<close>

definition graph_sort :: "nat \<Rightarrow> graph \<Rightarrow> string list \<Rightarrow> graph" where
  "graph_sort B g keys = Graph (Some (\<lambda>streams kwargs. ExternalSort B keys (hd streams))) [g]"

section \<open>Facts about dictionaries and grouping\<close>

lemma map_of_foldl_update:
  "map_of (foldl (\<lambda>d (k, v). AList.update k v d) d items) = map_of d ++ map_of (rev items)"
proof (induction items arbitrary: d)
  case Nil
  then show ?case by simp
next
  case (Cons p items)
  obtain k v where p: "p = (k, v)" by (cases p)
  have "map_of (foldl (\<lambda>d (k, v). AList.update k v d) (AList.update k v d) items)
          = map_of (AList.update k v d) ++ map_of (rev items)"
    by (rule Cons.IH)
  also have "\<dots> = map_of d ++ (map_of [(k, v)] ++ map_of (rev items))"
    by (simp add: update_conv')
  finally show ?case by (simp add: p)
qed

lemma map_of_dict_of_items: "map_of (dict_of_items items) = map_of (rev items)"
  by (simp add: dict_of_items_def map_of_foldl_update)

lemma map_of_dict_merge: "map_of (dict_merge d1 d2) = map_of d1 ++ map_of (rev d2)"
  by (simp add: dict_merge_def map_of_foldl_update)

lemma distinct_foldl_update:
  "distinct (map fst d) \<Longrightarrow> distinct (map fst (foldl (\<lambda>d (k, v). AList.update k v d) d items))"
  by (induction items arbitrary: d) (simp_all add: distinct_update split: prod.splits)

lemma map_of_rev_distinct: "distinct (map fst d) \<Longrightarrow> map_of (rev d) = map_of d"
  by (rule map_of_inject_set [THEN iffD2]) (simp_all add: distinct_rev rev_map [symmetric])

lemma map_of_count_row:
  "map_of (count_row column group_key (keyt group_key r) n) =
     (\<lambda>c. if c = column then Some (VInt (int n))
          else if c \<in> set group_key then Some (row_get r c) else None)"
proof -
  have "rev (zip group_key (map (row_get r) group_key))
          = zip (rev group_key) (map (row_get r) (rev group_key))"
    by (simp add: zip_rev rev_map [symmetric])
  then have "map_of (rev (zip group_key (map (row_get r) group_key)))
          = (\<lambda>c. if c \<in> set group_key then Some (row_get r c) else None)"
    by (simp add: map_of_zip_map)
  then show ?thesis
    by (simp add: count_row_def keyt_def update_conv' map_of_dict_of_items fun_eq_iff)
qed

lemma span_block:
  assumes "\<forall>r\<in>set g. P r" and "ys = [] \<or> \<not> P (hd ys)"
  shows "takeWhile P (g @ ys) = g" and "dropWhile P (g @ ys) = ys"
  using assms by (cases ys; simp add: takeWhile_append2 dropWhile_append2)+

lemma groupby_concat:
  assumes "\<forall>g\<in>set gs. g \<noteq> []"
      and "\<forall>g\<in>set gs. \<forall>r\<in>set (tl g). key r = key (hd g)"
      and "distinct_adj (map (\<lambda>g. key (hd g)) gs)"
  shows "groupby key (concat gs) = map (\<lambda>g. (key (hd g), g)) gs"
  using assms
proof (induction gs)
  case Nil
  then show ?case by simp
next
  case (Cons g gs)
  from Cons.prems(1) obtain x g' where g: "g = x # g'" by (cases g) auto
  from Cons.prems(2) g have same: "\<forall>r\<in>set g'. key r = key x" by simp
  have rest: "concat gs = [] \<or> key (hd (concat gs)) \<noteq> key x"
  proof (cases gs)
    case Nil
    then show ?thesis by simp
  next
    case (Cons h hs)
    from Cons.prems(1) Cons have "h \<noteq> []" by simp
    moreover from Cons.prems(3) Cons g have "key (hd h) \<noteq> key x" by auto
    ultimately show ?thesis using Cons by simp
  qed
  have tw: "takeWhile (\<lambda>y. key y = key x) (g' @ concat gs) = g'"
    using same rest by (intro span_block) simp_all
  have dw: "dropWhile (\<lambda>y. key y = key x) (g' @ concat gs) = concat gs"
    using same rest by (intro span_block) simp_all
  have d: "distinct_adj (map (\<lambda>g. key (hd g)) gs)"
    using Cons.prems(3) by (cases gs) simp_all
  have "groupby key (concat gs) = map (\<lambda>g. (key (hd g), g)) gs"
    using Cons.IH Cons.prems(1,2) d by simp
  then show ?case using g tw dw by simp
qed

section \<open>Facts about keys and the merge loops\<close>

lemma key_of_well_keyed:
  "well_keyed keys ts r \<Longrightarrow> key_of keys r = Inr (keyt keys r) \<and> map kind_of (keyt keys r) = ts"
proof (induction keys arbitrary: ts)
  case Nil
  then show ?case by (simp add: well_keyed_def keyt_def)
next
  case (Cons k ks)
  from Cons.prems obtain t ts' where ts: "ts = t # ts'"
    by (cases ts) (auto simp: well_keyed_def)
  from Cons.prems ts obtain v where v: "map_of r k = Some v" "kind_of v = t"
    by (auto simp: well_keyed_def)
  from Cons.prems ts have "well_keyed ks ts' r" by (simp add: well_keyed_def)
  from Cons.IH [OF this] show ?case
    using v ts by (simp add: keyt_def row_item_def row_get_def)
qed

lemma key_of_wk: "well_keyed keys ts r \<Longrightarrow> key_of keys r = Inr (keyt keys r)"
  by (simp add: key_of_well_keyed)

lemma kinds_wk: "well_keyed keys ts r \<Longrightarrow> map kind_of (keyt keys r) = ts"
  by (simp add: key_of_well_keyed)

lemma py_lt_same_kind: "kind_of x = kind_of y \<Longrightarrow> x \<noteq> y \<Longrightarrow> py_lt x y = Inr (x < y)"
  by (cases x; cases y) (simp_all add: less_val_def)

lemma py_ge_same_kind: "kind_of x = kind_of y \<Longrightarrow> x \<noteq> y \<Longrightarrow> py_ge x y = Inr (x \<ge> y)"
  by (cases x; cases y) (auto simp: less_val_def less_eq_val_def)

lemma tuple_lt_same_kinds:
  "map kind_of xs = map kind_of ys \<Longrightarrow> tuple_lt xs ys = Inr (xs < ys)"
proof (induction xs ys rule: tuple_lt.induct)
  case (1 x xs y ys)
  then show ?case by (auto simp: py_lt_same_kind)
qed simp_all

lemma tuple_ge_same_kinds:
  "map kind_of xs = map kind_of ys \<Longrightarrow> tuple_ge xs ys = Inr (xs \<ge> ys)"
proof (induction xs ys rule: tuple_ge.induct)
  case (1 x xs y ys)
  then show ?case by (auto simp: py_ge_same_kind)
qed simp_all


lemma py_lt_order: "py_lt x y \<noteq> Inl TypeError \<Longrightarrow> py_lt x y = Inr (x < y)"
  by (cases x; cases y) (simp_all add: less_val_def)

lemma tuple_lt_order: "tuple_lt xs ys \<noteq> Inl TypeError \<Longrightarrow> tuple_lt xs ys = Inr (xs < ys)"
proof (induction xs ys rule: tuple_lt.induct)
  case (1 x xs y ys)
  then show ?case by (auto simp: py_lt_order)
qed simp_all

text \<open>
  In this value domain a comparison that answers \<open>key_a < key_b\<close> with False answers
  \<open>key_a >= key_b\<close> with True: the first loop of \<open>InnerJoiner\<close> always takes one of its
  two branches.
\<close>

lemma py_ge_of_not_lt: "py_lt x y = Inr False \<Longrightarrow> py_ge x y = Inr True"
  by (cases x; cases y) auto

lemma tuple_ge_of_not_lt: "tuple_lt xs ys = Inr False \<Longrightarrow> tuple_ge xs ys = Inr True"
  by (induction xs ys rule: tuple_lt.induct) (auto simp: py_ge_of_not_lt)

lemma matched_has_key_well_keyed:
  assumes "\<forall>m\<in>set matched. well_keyed keys ts m"
      and "\<forall>m\<in>set matched. keyt keys m = km"
  shows "matched_has_key keys matched key = Inr (matched \<noteq> [] \<and> km = key)"
proof (cases matched)
  case Nil
  then show ?thesis by (simp add: matched_has_key_def)
next
  case (Cons m ms)
  with assms have "key_of keys m = Inr km" by (simp add: key_of_wk [of keys ts m])
  with Cons show ?thesis by (simp add: matched_has_key_def)
qed

lemma filter_one_key:
  "\<forall>m\<in>set matched. keyt keys m = km \<Longrightarrow>
   filter (\<lambda>b. keyt keys b = key) matched = (if km = key then matched else [])"
  by (induction matched) auto

lemma block_product_Nil [simp]: "block_product f keys [] rows_b = []"
  by (simp add: block_product_def)

lemma block_product_Cons:
  "block_product f keys (a # as) rows_b =
     map (f a) (filter (\<lambda>b. keyt keys b = keyt keys a) rows_b) @ block_product f keys as rows_b"
  by (simp add: block_product_def)

lemma block_product_skip:
  assumes "\<forall>a\<in>set as. \<forall>x\<in>set xs. keyt keys x \<noteq> keyt keys a"
  shows "block_product f keys as (xs @ ys) = block_product f keys as ys"
proof -
  have "\<And>a. a \<in> set as \<Longrightarrow> filter (\<lambda>b. keyt keys b = keyt keys a) xs = []"
    using assms by (auto simp: filter_empty_conv)
  then show ?thesis by (simp add: block_product_def cong: map_cong)
qed

lemma inner_drain_product:
  assumes "\<forall>r\<in>set as. well_keyed keys ts r"
      and "\<forall>m\<in>set matched. well_keyed keys ts m"
      and "\<forall>m\<in>set matched. keyt keys m = km"
  shows "inner_drain keys ov sa sb matched as =
           (block_product (join_rows ov sa sb) keys as matched, None)"
  using assms(1)
proof (induction as)
  case Nil
  then show ?case by simp
next
  case (Cons a as)
  have k: "key_of keys a = Inr (keyt keys a)"
    using Cons.prems by (simp add: key_of_wk [of keys ts a])
  have c: "matched_has_key keys matched (keyt keys a) = Inr (matched \<noteq> [] \<and> km = keyt keys a)"
    using assms(2,3) by (rule matched_has_key_well_keyed)
  have f: "filter (\<lambda>b. keyt keys b = keyt keys a) matched = (if km = keyt keys a then matched else [])"
    using assms(3) by (rule filter_one_key)
  have "inner_drain keys ov sa sb matched as =
           (block_product (join_rows ov sa sb) keys as matched, None)"
    using Cons by simp
  then show ?case
    by (simp add: k c f block_product_Cons yield_then_def)
qed


lemma inner_merge_product:
  assumes "\<forall>r\<in>set as. well_keyed keys ts r"
      and "\<forall>r\<in>set bs. well_keyed keys ts r"
      and "\<forall>m\<in>set matched. well_keyed keys ts m"
      and "\<forall>m\<in>set matched. keyt keys m = km"
      and "sorted (map (keyt keys) as)"
      and "sorted (map (keyt keys) bs)"
      and "matched \<noteq> [] \<longrightarrow> (\<forall>b\<in>set bs. km \<le> keyt keys b) \<and> (\<forall>a\<in>set as. km \<le> keyt keys a)"
  shows "inner_merge keys ov sa sb matched as bs =
           (block_product (join_rows ov sa sb) keys as (matched @ bs), None)"
  using assms
proof (induction keys ov sa sb matched as bs arbitrary: km rule: inner_merge.induct)
  case (1 keys ov sa sb matched bs)
  then show ?case by simp
next
  case (2 keys ov sa sb matched row_a as)
  have "inner_drain keys ov sa sb matched (row_a # as) =
          (block_product (join_rows ov sa sb) keys (row_a # as) matched, None)"
    using "2.prems"(1,3,4) by (rule inner_drain_product)
  then show ?case by simp
next
  case (3 keys ov sa sb matched row_a as row_b bs)
  let ?ka = "keyt keys row_a" and ?kb = "keyt keys row_b"
  let ?f = "join_rows ov sa sb"
  have ka: "key_of keys row_a = Inr ?ka"
    using "3.prems"(1) by (simp add: key_of_wk [of keys ts])
  have kb: "key_of keys row_b = Inr ?kb"
    using "3.prems"(2) by (simp add: key_of_wk [of keys ts])
  have kinds: "map kind_of ?ka = map kind_of ?kb"
    using "3.prems"(1,2) by (simp add: kinds_wk [of keys ts])
  have lt: "tuple_lt ?ka ?kb = Inr (?ka < ?kb)"
    using kinds by (rule tuple_lt_same_kinds)
  have ge: "tuple_ge ?ka ?kb = Inr (?ka \<ge> ?kb)"
    using kinds by (rule tuple_ge_same_kinds)
  have mk: "matched_has_key keys matched key = Inr (matched \<noteq> [] \<and> km = key)" for key
    using "3.prems"(3,4) by (rule matched_has_key_well_keyed)
  have fm: "filter (\<lambda>b. keyt keys b = key) matched = (if km = key then matched else [])" for key
    using "3.prems"(4) by (rule filter_one_key)
  have b_le: "\<forall>b\<in>set bs. ?kb \<le> keyt keys b"
    using "3.prems"(6) by simp
  have a_le: "\<forall>a\<in>set as. ?ka \<le> keyt keys a"
    using "3.prems"(5) by simp
  show ?case
  proof (cases "?ka < ?kb")
    case True
    have "inner_merge keys ov sa sb matched as (row_b # bs) =
            (block_product ?f keys as (matched @ row_b # bs), None)"
    proof (rule "3.IH"(1) [OF ka kb lt True mk, of km])
      show "\<forall>r\<in>set as. well_keyed keys ts r" using "3.prems"(1) by simp
      show "\<forall>r\<in>set (row_b # bs). well_keyed keys ts r" using "3.prems"(2) by simp
      show "\<forall>m\<in>set matched. well_keyed keys ts m" using "3.prems"(3) by simp
      show "\<forall>m\<in>set matched. keyt keys m = km" using "3.prems"(4) by simp
      show "sorted (map (keyt keys) as)" using "3.prems"(5) by simp
      show "sorted (map (keyt keys) (row_b # bs))" using "3.prems"(6) by simp
      show "matched \<noteq> [] \<longrightarrow>
              (\<forall>b\<in>set (row_b # bs). km \<le> keyt keys b) \<and> (\<forall>a\<in>set as. km \<le> keyt keys a)"
        using "3.prems"(7) by simp
    qed
    moreover have "filter (\<lambda>b. keyt keys b = ?ka) (row_b # bs) = []"
      using True b_le by (auto simp: filter_empty_conv)
    ultimately show ?thesis
      using True by (simp add: ka kb lt mk fm block_product_Cons yield_then_def)
  next
    case False
    then have le: "?kb \<le> ?ka" by simp
    let ?m' = "if matched = [] \<or> (matched \<noteq> [] \<and> km = ?kb) then matched @ [row_b] else [row_b]"
    have "inner_merge keys ov sa sb ?m' (row_a # as) bs =
            (block_product ?f keys (row_a # as) (?m' @ bs), None)"
    proof (rule "3.IH"(2) [OF ka kb lt False ge le mk, of ?kb])
      show "\<forall>r\<in>set (row_a # as). well_keyed keys ts r" using "3.prems"(1) by simp
      show "\<forall>r\<in>set bs. well_keyed keys ts r" using "3.prems"(2) by simp
      show "\<forall>m\<in>set ?m'. well_keyed keys ts m" using "3.prems"(2,3) by simp
      show "\<forall>m\<in>set ?m'. keyt keys m = ?kb" using "3.prems"(4) by auto
      show "sorted (map (keyt keys) (row_a # as))" using "3.prems"(5) by simp
      show "sorted (map (keyt keys) bs)" using "3.prems"(6) by simp
      show "?m' \<noteq> [] \<longrightarrow>
              (\<forall>b\<in>set bs. ?kb \<le> keyt keys b) \<and> (\<forall>a\<in>set (row_a # as). ?kb \<le> keyt keys a)"
        using b_le a_le le by auto
    qed
    moreover have "block_product ?f keys (row_a # as) (?m' @ bs) =
                   block_product ?f keys (row_a # as) (matched @ row_b # bs)"
    proof (cases "matched = [] \<or> (matched \<noteq> [] \<and> km = ?kb)")
      case True
      then show ?thesis by auto
    next
      case False
      then have ne: "matched \<noteq> []" and neq: "km \<noteq> ?kb" by auto
      from ne "3.prems"(7) have "km \<le> ?kb" by simp
      with neq have "km < ?kb" by simp
      with le a_le have "\<forall>a\<in>set (row_a # as). km < keyt keys a" by auto
      with "3.prems"(4) have "\<forall>a\<in>set (row_a # as). \<forall>x\<in>set matched. keyt keys x \<noteq> keyt keys a"
        by auto
      then have "block_product ?f keys (row_a # as) (matched @ row_b # bs) =
                 block_product ?f keys (row_a # as) (row_b # bs)"
        by (rule block_product_skip)
      with False show ?thesis by simp
    qed
    ultimately show ?thesis
      using False le by (simp add: ka kb lt ge mk)
  qed
qed


lemma block_product_right_Nil [simp]: "block_product f keys rows_a [] = []"
  by (simp add: block_product_def)

lemma InnerJoiner_product:
  assumes "\<forall>r\<in>set rows_a. well_keyed keys ts r"
      and "\<forall>r\<in>set rows_b. well_keyed keys ts r"
      and "sorted (map (keyt keys) rows_a)"
      and "sorted (map (keyt keys) rows_b)"
  shows "InnerJoiner sa sb keys rows_a rows_b =
           (block_product (join_rows (first_overlap keys rows_a rows_b) sa sb) keys rows_a rows_b,
            None)"
proof (cases rows_a)
  case Nil
  then show ?thesis by (simp add: InnerJoiner_def)
next
  case a: (Cons row_a as)
  show ?thesis
  proof (cases rows_b)
    case Nil
    then show ?thesis by (simp add: InnerJoiner_def a)
  next
    case b: (Cons row_b bs)
    have "inner_merge keys (overlapping_columns keys row_a row_b) sa sb [] rows_a rows_b =
            (block_product (join_rows (overlapping_columns keys row_a row_b) sa sb) keys rows_a
               ([] @ rows_b), None)"
      using assms by (intro inner_merge_product [where ts = ts and km = "[]"]) simp_all
    then show ?thesis by (simp add: InnerJoiner_def first_overlap_def a b)
  qed
qed



section \<open>Facts about the outer join\<close>

lemma key_of_present:
  "\<forall>k\<in>set keys. map_of r k \<noteq> None \<Longrightarrow> key_of keys r = Inr (keyt keys r)"
  by (induction keys) (auto simp: keyt_def row_item_def row_get_def)














lemma set_set_list [simp]: "set (set_list xs) = set xs"
  by (simp add: set_list_def)

lemma distinct_set_list [simp]: "distinct (set_list xs)"
  by (simp add: set_list_def)









section \<open>Where emitted rows come from, and renaming\<close>

lemma inner_drain_rows:
  "\<forall>row\<in>set (fst (inner_drain keys ov sa sb matched as)).
     \<exists>a\<in>set as. \<exists>b\<in>set matched. row = join_rows ov sa sb a b"
  by (induction as) (fastforce simp: yield_then_def split: sum.splits)+

lemma inner_merge_rows:
  "\<forall>row\<in>set (fst (inner_merge keys ov sa sb matched as bs)).
     \<exists>a\<in>set as. \<exists>b\<in>set matched \<union> set bs. row = join_rows ov sa sb a b"
proof (induction keys ov sa sb matched as bs rule: inner_merge.induct)
  case (1 keys ov sa sb matched bs)
  then show ?case by simp
next
  case (2 keys ov sa sb matched row_a as)
  show ?case using inner_drain_rows [of keys ov sa sb matched "row_a # as"] by simp
next
  case (3 keys ov sa sb matched row_a as row_b bs)
  show ?case
  proof (cases "key_of keys row_a")
    case (Inl e)
    then show ?thesis by simp
  next
    case ka: (Inr key_a)
    show ?thesis
    proof (cases "key_of keys row_b")
      case (Inl e)
      then show ?thesis by (simp add: ka)
    next
      case kb: (Inr key_b)
      show ?thesis
      proof (cases "tuple_lt key_a key_b")
        case (Inl e)
        then show ?thesis by (simp add: ka kb)
      next
        case lt: (Inr lt)
        show ?thesis
        proof (cases lt)
          case True
          show ?thesis
          proof (cases "matched_has_key keys matched key_a")
            case (Inl e)
            then show ?thesis using True by (simp add: ka kb lt)
          next
            case c: (Inr c)
            from "3.IH"(1) [OF ka kb lt True c] show ?thesis
              using True by (fastforce simp: ka kb lt c yield_then_def)
          qed
        next
          case False
          show ?thesis
          proof (cases "tuple_ge key_a key_b")
            case (Inl e)
            then show ?thesis using False by (simp add: ka kb lt)
          next
            case ge: (Inr ge)
            show ?thesis
            proof (cases ge)
              case ge_False: False
              then show ?thesis using False by (simp add: ka kb lt ge)
            next
              case ge_True: True
              show ?thesis
              proof (cases "matched_has_key keys matched key_b")
                case (Inl e)
                then show ?thesis using False ge_True by (simp add: ka kb lt ge)
              next
                case c: (Inr c)
                from "3.IH"(2) [OF ka kb lt False ge ge_True c] show ?thesis
                  using False ge_True by (fastforce simp: ka kb lt ge c split: if_splits)
              qed
            qed
          qed
        qed
      qed
    qed
  qed
qed

lemma left_scan_rows:
  "left_scan keys key_a matched row_b key_b bs = Inr (m', rb', bs') \<Longrightarrow>
     set m' \<subseteq> set matched \<union> insert row_b (set bs) \<and> insert rb' (set bs') \<subseteq> insert row_b (set bs)"
proof (induction bs arbitrary: matched row_b key_b)
  case Nil
  then show ?case by (auto split: sum.splits if_splits)
next
  case (Cons b' bs)
  show ?case
  proof (cases "tuple_ge key_a key_b")
    case (Inl e)
    with Cons.prems show ?thesis by simp
  next
    case ge: (Inr ge)
    show ?thesis
    proof (cases ge)
      case False
      with Cons.prems ge show ?thesis by auto
    next
      case True
      show ?thesis
      proof (cases "key_of keys b'")
        case (Inl e)
        with Cons.prems ge True show ?thesis by simp
      next
        case (Inr key_b')
        with Cons.prems ge True
        have "left_scan keys key_a (if key_a = key_b then matched @ [row_b] else matched)
                b' key_b' bs = Inr (m', rb', bs')" by simp
        from Cons.IH [OF this] show ?thesis by (auto split: if_splits)
      qed
    qed
  qed
qed

lemma left_loop_rows:
  "\<forall>row\<in>set (fst (left_loop keys row_b bs as)).
     row \<in> set as \<or> (\<exists>a\<in>set as. \<exists>b\<in>insert row_b (set bs). row = dict_merge a b)"
proof (induction as arbitrary: row_b bs)
  case Nil
  then show ?case by simp
next
  case (Cons row_a as)
  show ?case
  proof (cases "key_of keys row_a")
    case (Inl e)
    then show ?thesis by simp
  next
    case ka: (Inr key_a)
    show ?thesis
    proof (cases "key_of keys row_b")
      case (Inl e)
      then show ?thesis by (simp add: ka)
    next
      case kb: (Inr key_b)
      show ?thesis
      proof (cases "left_scan keys key_a [] row_b key_b bs")
        case (Inl e)
        then show ?thesis by (simp add: ka kb)
      next
        case (Inr res)
        obtain m' rb' bs' where res: "res = (m', rb', bs')" by (cases res)
        from left_scan_rows [OF Inr [unfolded res]]
        have sub: "set m' \<subseteq> insert row_b (set bs)" "insert rb' (set bs') \<subseteq> insert row_b (set bs)"
          by auto
        have "\<forall>row\<in>set (fst (left_loop keys rb' bs' as)).
                row \<in> set as \<or> (\<exists>a\<in>set as. \<exists>b\<in>insert rb' (set bs'). row = dict_merge a b)"
          by (rule Cons.IH)
        with sub(2) have rec: "\<forall>row\<in>set (fst (left_loop keys rb' bs' as)).
                row \<in> set as \<or> (\<exists>a\<in>set as. \<exists>b\<in>insert row_b (set bs). row = dict_merge a b)"
          by blast
        have out: "\<forall>row\<in>set (if m' \<noteq> [] then map (dict_merge row_a) m' else [row_a]).
                row = row_a \<or> (\<exists>b\<in>insert row_b (set bs). row = dict_merge row_a b)"
          using sub(1) by auto
        have "fst (left_loop keys row_b bs (row_a # as)) =
                (if m' \<noteq> [] then map (dict_merge row_a) m' else [row_a])
                  @ fst (left_loop keys rb' bs' as)"
          by (simp add: ka kb Inr res yield_then_def)
        with rec out show ?thesis
          by (simp only: set_append set_simps ball_Un) blast
      qed
    qed
  qed
qed

lemma right_scan_rows:
  "right_scan keys key_b matched row_a key_a as = Inr (m', ra', ka', as') \<Longrightarrow>
     set m' \<subseteq> set matched \<union> insert row_a (set as) \<and> insert ra' (set as') \<subseteq> insert row_a (set as)"
proof (induction as arbitrary: matched row_a key_a)
  case Nil
  then show ?case by (auto split: sum.splits if_splits)
next
  case (Cons a' as)
  show ?case
  proof (cases "tuple_ge key_b key_a")
    case (Inl e)
    with Cons.prems show ?thesis by simp
  next
    case ge: (Inr ge)
    show ?thesis
    proof (cases ge)
      case False
      with Cons.prems ge show ?thesis by auto
    next
      case True
      show ?thesis
      proof (cases "key_of keys a'")
        case (Inl e)
        with Cons.prems ge True show ?thesis by simp
      next
        case (Inr key_a')
        with Cons.prems ge True
        have "right_scan keys key_b (if key_a = key_b then matched @ [row_a] else matched)
                a' key_a' as = Inr (m', ra', ka', as')" by simp
        from Cons.IH [OF this] show ?thesis by (auto split: if_splits)
      qed
    qed
  qed
qed

lemma right_loop_rows:
  "\<forall>row\<in>set (fst (right_loop keys row_a key_a as bs)).
     row \<in> set bs \<or> (\<exists>a\<in>insert row_a (set as). \<exists>b\<in>set bs. row = dict_merge a b)"
proof (induction bs arbitrary: row_a key_a as)
  case Nil
  then show ?case by simp
next
  case (Cons row_b bs)
  show ?case
  proof (cases "key_of keys row_b")
    case (Inl e)
    then show ?thesis by simp
  next
    case kb: (Inr key_b)
    show ?thesis
    proof (cases "right_scan keys key_b [] row_a key_a as")
      case (Inl e)
      then show ?thesis by (simp add: kb)
    next
      case (Inr res)
      obtain m' ra' ka' as' where res: "res = (m', ra', ka', as')" by (cases res)
      from right_scan_rows [OF Inr [unfolded res]]
      have sub: "set m' \<subseteq> insert row_a (set as)" "insert ra' (set as') \<subseteq> insert row_a (set as)"
        by auto
      have "\<forall>row\<in>set (fst (right_loop keys ra' ka' as' bs)).
              row \<in> set bs \<or> (\<exists>a\<in>insert ra' (set as'). \<exists>b\<in>set bs. row = dict_merge a b)"
        by (rule Cons.IH)
      with sub(2) have rec: "\<forall>row\<in>set (fst (right_loop keys ra' ka' as' bs)).
              row \<in> set bs \<or> (\<exists>a\<in>insert row_a (set as). \<exists>b\<in>set bs. row = dict_merge a b)"
        by blast
      have out: "\<forall>row\<in>set (if m' \<noteq> [] then map (\<lambda>m. dict_merge m row_b) m' else [row_b]).
              row = row_b \<or> (\<exists>a\<in>insert row_a (set as). row = dict_merge a row_b)"
        using sub(1) by auto
      have "fst (right_loop keys row_a key_a as (row_b # bs)) =
              (if m' \<noteq> [] then map (\<lambda>m. dict_merge m row_b) m' else [row_b])
                @ fst (right_loop keys ra' ka' as' bs)"
        by (simp add: kb Inr res yield_then_def)
      with rec out show ?thesis
        by (simp only: set_append set_simps ball_Un) blast
    qed
  qed
qed

lemma InnerJoiner_rows:
  "\<forall>row\<in>set (fst (InnerJoiner sa sb keys rows_a rows_b)).
     \<exists>a\<in>set rows_a. \<exists>b\<in>set rows_b.
       row = join_rows (first_overlap keys rows_a rows_b) sa sb a b"
proof (cases rows_a)
  case Nil
  then show ?thesis by (simp add: InnerJoiner_def)
next
  case a: (Cons row_a as)
  show ?thesis
  proof (cases rows_b)
    case Nil
    then show ?thesis by (simp add: InnerJoiner_def a)
  next
    case b: (Cons row_b bs)
    from inner_merge_rows [of keys "overlapping_columns keys row_a row_b" sa sb "[]" rows_a rows_b]
    show ?thesis by (simp add: InnerJoiner_def first_overlap_def a b)
  qed
qed

lemma LeftJoiner_rows:
  "\<forall>row\<in>set (fst (LeftJoiner sa sb keys rows_a rows_b)).
     row \<in> set rows_a \<or> (\<exists>a\<in>set rows_a. \<exists>b\<in>set rows_b. row = dict_merge a b)"
proof (cases rows_a)
  case Nil
  then show ?thesis by (simp add: LeftJoiner_def)
next
  case a: (Cons row_a as)
  show ?thesis
  proof (cases rows_b)
    case Nil
    then show ?thesis by (simp add: LeftJoiner_def a)
  next
    case b: (Cons row_b bs)
    from left_loop_rows [of keys row_b bs rows_a]
    show ?thesis by (simp add: LeftJoiner_def a b)
  qed
qed

lemma RightJoiner_rows:
  "\<forall>row\<in>set (fst (RightJoiner sa sb keys rows_a rows_b)).
     row \<in> set rows_b \<or> (\<exists>a\<in>set rows_a. \<exists>b\<in>set rows_b. row = dict_merge a b)"
proof (cases rows_a)
  case Nil
  then show ?thesis by (simp add: RightJoiner_def)
next
  case a: (Cons row_a as)
  show ?thesis
  proof (cases rows_b)
    case Nil
    then show ?thesis by (simp add: RightJoiner_def a)
  next
    case b: (Cons row_b bs)
    from right_loop_rows [of keys row_a _ as rows_b]
    show ?thesis by (auto simp add: RightJoiner_def a b split: sum.splits)
  qed
qed

lemma map_of_unique:
  "(c, v) \<in> set xs \<Longrightarrow> \<forall>(c', v')\<in>set xs. c' = c \<longrightarrow> v' = v \<Longrightarrow> map_of xs c = Some v"
  by (induction xs) auto

lemma distinct_dict_of_items: "distinct (map fst (dict_of_items items))"
  by (simp add: dict_of_items_def distinct_foldl_update)

lemma map_of_rename_row_Some:
  assumes "distinct (map fst r)" and "map_of r k = Some v"
      and "\<forall>k'\<in>fst ` set r. renamed ov s k' = renamed ov s k \<longrightarrow> k' = k"
  shows "map_of (rename_row ov s r) (renamed ov s k) = Some v"
proof -
  let ?items = "map (\<lambda>(k, v). (renamed ov s k, v)) r"
  from assms(2) have in_r: "(k, v) \<in> set r" by (rule map_of_SomeD)
  then have "(renamed ov s k, v) \<in> set (rev ?items)" by force
  moreover have "\<forall>(c', v')\<in>set (rev ?items). c' = renamed ov s k \<longrightarrow> v' = v"
  proof (clarsimp)
    fix k' v' assume a: "(k', v') \<in> set r" "renamed ov s k' = renamed ov s k"
    then have "k' \<in> fst ` set r" by force
    with assms(3) a have "k' = k" by blast
    with a(1) assms(1) in_r show "v' = v" by (auto dest: eq_key_imp_eq_value)
  qed
  ultimately have "map_of (rev ?items) (renamed ov s k) = Some v" by (rule map_of_unique)
  then show ?thesis by (simp add: rename_row_def map_of_dict_of_items)
qed

lemma map_of_rename_row_None:
  assumes "c \<notin> renamed ov s ` fst ` set r"
  shows "map_of (rename_row ov s r) c = None"
proof -
  let ?items = "map (\<lambda>(k, v). (renamed ov s k, v)) r"
  have "fst ` set (rev ?items) = renamed ov s ` fst ` set r" by force
  with assms have "c \<notin> fst ` set (rev ?items)" by simp
  then have "map_of (rev ?items) c = None" by (rule iffD2 [OF map_of_eq_None_iff])
  then show ?thesis by (simp add: rename_row_def map_of_dict_of_items)
qed

lemma map_of_join_rows:
  "map_of (join_rows ov sa sb a b) = map_of (rename_row ov sa a) ++ map_of (rename_row ov sb b)"
proof -
  have "distinct (map fst (rename_row ov sb b))"
    by (simp add: rename_row_def distinct_dict_of_items)
  then show ?thesis by (simp add: join_rows_def map_of_dict_merge map_of_rev_distinct)
qed

lemma map_of_rename_row_plain:
  assumes "distinct (map fst r)" and "c \<notin> ov" and "\<forall>c'\<in>ov. c' \<in> fst ` set r \<longrightarrow> c' @ s \<noteq> c"
  shows "map_of (rename_row ov s r) c = map_of r c"
proof (cases "map_of r c")
  case None
  then have "c \<notin> fst ` set r" by (simp add: map_of_eq_None_iff)
  with assms(2,3) have "c \<notin> renamed ov s ` fst ` set r" by (auto simp: renamed_def)
  then show ?thesis using None by (simp add: map_of_rename_row_None)
next
  case (Some v)
  have "\<forall>k'\<in>fst ` set r. renamed ov s k' = renamed ov s c \<longrightarrow> k' = c"
    using assms(2,3) by (auto simp: renamed_def)
  from map_of_rename_row_Some [OF assms(1) Some this] assms(2) Some
  show ?thesis by (simp add: renamed_def)
qed

lemma map_of_rename_row_suffixed:
  assumes "distinct (map fst r)" and "c \<in> ov" and "c @ s \<notin> fst ` set r"
  shows "map_of (rename_row ov s r) (c @ s) = map_of r c"
proof (cases "map_of r c")
  case None
  then have "c \<notin> fst ` set r" by (simp add: map_of_eq_None_iff)
  with assms(3) have "c @ s \<notin> renamed ov s ` fst ` set r" by (auto simp: renamed_def)
  then show ?thesis using None by (simp add: map_of_rename_row_None)
next
  case (Some v)
  have "\<forall>k'\<in>fst ` set r. renamed ov s k' = renamed ov s c \<longrightarrow> k' = c"
  proof (intro ballI impI)
    fix k' assume k': "k' \<in> fst ` set r" "renamed ov s k' = renamed ov s c"
    show "k' = c"
    proof (cases "k' \<in> ov")
      case True
      with k'(2) assms(2) show ?thesis by (simp add: renamed_def)
    next
      case False
      with k'(2) assms(2) have "k' = c @ s" by (simp add: renamed_def)
      with k'(1) assms(3) show ?thesis by simp
    qed
  qed
  from map_of_rename_row_Some [OF assms(1) Some this] assms(2) Some
  show ?thesis by (simp add: renamed_def)
qed

lemma map_of_rename_row_other:
  assumes "c @ s \<notin> fst ` set r" and "\<forall>c'\<in>ov. c' @ s' \<noteq> c @ s"
  shows "map_of (rename_row ov s' r) (c @ s) = None"
proof -
  from assms have "c @ s \<notin> renamed ov s' ` fst ` set r" by (auto simp: renamed_def)
  then show ?thesis by (rule map_of_rename_row_None)
qed


lemma first_overlap_no_key: "k \<in> set keys \<Longrightarrow> k \<notin> first_overlap keys rows_a rows_b"
  by (simp add: first_overlap_def overlapping_columns_def split: list.splits)

lemma well_keyed_present: "well_keyed keys ts r \<Longrightarrow> k \<in> set keys \<Longrightarrow> map_of r k \<noteq> None"
proof -
  assume wk: "well_keyed keys ts r" and k: "k \<in> set keys"
  from k have "map_option kind_of (map_of r k) \<in> set (map (\<lambda>k. map_option kind_of (map_of r k)) keys)"
    by simp
  also from wk have "\<dots> = set (map Some ts)" by (simp add: well_keyed_def)
  finally show ?thesis by auto
qed

lemma map_of_dict_merge_dict:
  "distinct (map fst b) \<Longrightarrow> map_of (dict_merge a b) = map_of a ++ map_of b"
  by (simp add: map_of_dict_merge map_of_rev_distinct)

lemma join_rows_plain_column:
  assumes "distinct (map fst a)" and "distinct (map fst b)" and "c \<notin> ov"
      and "\<forall>c'\<in>ov. c' @ sa \<noteq> c \<and> c' @ sb \<noteq> c"
  shows "map_of (join_rows ov sa sb a b) c = (map_of a ++ map_of b) c"
proof -
  have "map_of (rename_row ov sa a) c = map_of a c"
    using assms by (intro map_of_rename_row_plain) auto
  moreover have "map_of (rename_row ov sb b) c = map_of b c"
    using assms by (intro map_of_rename_row_plain) auto
  ultimately show ?thesis by (simp add: map_of_join_rows map_add_def split: option.splits)
qed

lemma join_rows_left_suffixed:
  assumes "distinct (map fst a)" and "c \<in> ov"
      and "c @ sa \<notin> fst ` set a" and "c @ sa \<notin> fst ` set b"
      and "\<forall>c'\<in>ov. c' @ sb \<noteq> c @ sa"
  shows "map_of (join_rows ov sa sb a b) (c @ sa) = map_of a c"
proof -
  have "map_of (rename_row ov sb b) (c @ sa) = None"
    using assms(4,5) by (rule map_of_rename_row_other)
  moreover have "map_of (rename_row ov sa a) (c @ sa) = map_of a c"
    using assms(1,2,3) by (rule map_of_rename_row_suffixed)
  ultimately show ?thesis by (simp add: map_of_join_rows map_add_def split: option.splits)
qed

lemma join_rows_right_suffixed:
  assumes "distinct (map fst b)" and "c \<in> ov"
      and "c @ sb \<notin> fst ` set a" and "c @ sb \<notin> fst ` set b"
      and "\<forall>c'\<in>ov. c' @ sa \<noteq> c @ sb"
  shows "map_of (join_rows ov sa sb a b) (c @ sb) = map_of b c"
proof -
  have "map_of (rename_row ov sa a) (c @ sb) = None"
    using assms(3,5) by (rule map_of_rename_row_other)
  moreover have "map_of (rename_row ov sb b) (c @ sb) = map_of b c"
    using assms(1,2,4) by (rule map_of_rename_row_suffixed)
  ultimately show ?thesis by (simp add: map_of_join_rows map_add_def split: option.splits)
qed

lemma join_rows_collision_gone:
  assumes "c \<in> ov" and "\<forall>c'\<in>ov. c' @ sa \<noteq> c \<and> c' @ sb \<noteq> c"
  shows "map_of (join_rows ov sa sb a b) c = None"
proof -
  have "c \<notin> renamed ov sa ` fst ` set a" using assms by (auto simp: renamed_def)
  then have "map_of (rename_row ov sa a) c = None" by (rule map_of_rename_row_None)
  moreover have "c \<notin> renamed ov sb ` fst ` set b" using assms by (auto simp: renamed_def)
  then have "map_of (rename_row ov sb b) c = None" by (rule map_of_rename_row_None)
  ultimately show ?thesis by (simp add: map_of_join_rows)
qed

section \<open>Facts about mapping in place\<close>

lemma Map_call_in_place_aux:
  assumes "distinct rs"
      and "\<forall>r\<in>set rs. h' r = h r"
      and "\<And>r h''. r \<in> set rs \<Longrightarrow> h'' r = h r \<Longrightarrow> mapper r h'' = (([r], None), h''(r := g r))"
  shows "Map_call mapper rs h' = ((rs, None), (\<lambda>r. if r \<in> set rs then g r else h' r))"
  using assms
proof (induction rs arbitrary: h')
  case Nil
  then show ?case by simp
next
  case (Cons r rs)
  have step: "mapper r h' = (([r], None), h'(r := g r))"
    using Cons.prems(2) by (intro Cons.prems(3)) simp_all
  have "Map_call mapper rs (h'(r := g r)) =
          ((rs, None), (\<lambda>x. if x \<in> set rs then g x else (h'(r := g r)) x))"
  proof (rule Cons.IH)
    show "distinct rs" using Cons.prems(1) by simp
    show "\<forall>x\<in>set rs. (h'(r := g r)) x = h x" using Cons.prems(1,2) by auto
    show "mapper x h'' = (([x], None), h''(x := g x))" if "x \<in> set rs" "h'' x = h x" for x h''
      using that by (intro Cons.prems(3)) simp_all
  qed
  moreover have "(\<lambda>x. if x \<in> set rs then g x else (h'(r := g r)) x)
               = (\<lambda>x. if x \<in> set (r # rs) then g x else h' x)"
    by (auto simp: fun_eq_iff)
  ultimately show ?case by (simp add: step yield_then_def)
qed

lemma Map_call_in_place:
  assumes "distinct rs"
      and "\<And>r h'. r \<in> set rs \<Longrightarrow> h' r = h r \<Longrightarrow> mapper r h' = (([r], None), h'(r := g r))"
  shows "Map_call mapper rs h = ((rs, None), (\<lambda>r. if r \<in> set rs then g r else h r))"
  by (rule Map_call_in_place_aux [where h = h]) (use assms in simp_all)

section \<open>Facts about the external sort\<close>

declare kmerge.simps [simp del] chunks.simps [simp del]

lemma concat_chunks: "concat (chunks B xs) = xs"
proof (induction B xs rule: chunks.induct)
  case (1 B xs)
  show ?case
  proof (cases "xs = []")
    case True
    then show ?thesis by (subst chunks.simps) simp
  next
    case False
    with "1.IH" have "concat (chunks B (drop (max 1 B) xs)) = drop (max 1 B) xs" by simp
    with False show ?thesis by (subst chunks.simps) simp
  qed
qed

lemma pop_min_None: "pop_min key runs = None \<Longrightarrow> concat runs = []"
  by (induction key runs rule: pop_min.induct) (auto split: option.splits if_splits)

lemma pop_min_mset:
  "pop_min key runs = Some (x, runs') \<Longrightarrow> mset (concat runs) = add_mset x (mset (concat runs'))"
  by (induction key runs arbitrary: x runs' rule: pop_min.induct)
     (auto split: option.splits if_splits)

lemma pop_min_sorted:
  "pop_min key runs = Some (x, runs') \<Longrightarrow> \<forall>r\<in>set runs. sorted (map key r) \<Longrightarrow>
     \<forall>r\<in>set runs'. sorted (map key r)"
  by (induction key runs arbitrary: x runs' rule: pop_min.induct)
     (auto split: option.splits if_splits)

lemma pop_min_least:
  "pop_min key runs = Some (x, runs') \<Longrightarrow> \<forall>r\<in>set runs. sorted (map key r) \<Longrightarrow>
     \<forall>y\<in>set (concat runs). key x \<le> key y"
proof (induction key runs arbitrary: x runs' rule: pop_min.induct)
  case (1 key)
  then show ?case by simp
next
  case (2 key runs)
  then show ?case by (auto split: option.splits)
next
  case (3 key y ys runs)
  have ys: "\<forall>z\<in>set ys. key y \<le> key z" using "3.prems"(2) by simp
  show ?case
  proof (cases "pop_min key runs")
    case None
    then have "concat runs = []" by (rule pop_min_None)
    with None "3.prems"(1) ys show ?thesis by auto
  next
    case (Some p)
    obtain x' runs'' where p: "p = (x', runs'')" by (cases p)
    from "3.prems"(2) have "\<forall>r\<in>set runs. sorted (map key r)" by simp
    from "3.IH" [OF Some [unfolded p] this]
    have rest: "\<forall>z\<in>set (concat runs). key x' \<le> key z" .
    show ?thesis
    proof (cases "key y \<le> key x'")
      case True
      with Some p "3.prems"(1) have "x = y" by simp
      with True rest ys show ?thesis by (auto intro: order_trans)
    next
      case False
      with Some p "3.prems"(1) have "x = x'" by simp
      moreover from False have "key x' \<le> key y" by simp
      ultimately show ?thesis using rest ys by (auto intro: order_trans)
    qed
  qed
qed

lemma pop_min_stable:
  "pop_min key runs = Some (x, runs') \<Longrightarrow> \<forall>r\<in>set runs. sorted (map key r) \<Longrightarrow>
     filter (\<lambda>r. key r = k) (concat runs) =
       (if key x = k then x # filter (\<lambda>r. key r = k) (concat runs')
        else filter (\<lambda>r. key r = k) (concat runs'))"
proof (induction key runs arbitrary: x runs' rule: pop_min.induct)
  case (1 key)
  then show ?case by simp
next
  case (2 key runs)
  then show ?case by (auto split: option.splits)
next
  case (3 key y ys runs)
  have ys: "\<forall>z\<in>set ys. key y \<le> key z" using "3.prems"(2) by simp
  show ?case
  proof (cases "pop_min key runs")
    case None
    with "3.prems"(1) show ?thesis by auto
  next
    case (Some p)
    obtain x' runs'' where p: "p = (x', runs'')" by (cases p)
    from "3.prems"(2) have "\<forall>r\<in>set runs. sorted (map key r)" by simp
    from "3.IH" [OF Some [unfolded p] this]
    have IH: "filter (\<lambda>r. key r = k) (concat runs) =
       (if key x' = k then x' # filter (\<lambda>r. key r = k) (concat runs'')
        else filter (\<lambda>r. key r = k) (concat runs''))" .
    show ?thesis
    proof (cases "key y \<le> key x'")
      case True
      with Some p "3.prems"(1) show ?thesis by auto
    next
      case False
      with Some p "3.prems"(1) have x: "x = x'" "runs' = (y # ys) # runs''" by simp_all
      show ?thesis
      proof (cases "key x' = k")
        case True
        from \<open>\<not> key y \<le> key x'\<close> ys True have "\<forall>z\<in>set (y # ys). key z \<noteq> k" by auto
        then have fy: "filter (\<lambda>r. key r = k) (y # ys) = []"
          by (simp only: filter_empty_conv)
        have l: "filter (\<lambda>r. key r = k) (concat ((y # ys) # runs)) =
                x' # filter (\<lambda>r. key r = k) (concat runs'')"
        proof -
          from IH True have "filter (\<lambda>r. key r = k) (concat runs) =
                x' # filter (\<lambda>r. key r = k) (concat runs'')" by simp
          then show ?thesis by (simp only: concat.simps filter_append fy append_Nil)
        qed
        have r: "filter (\<lambda>r. key r = k) (concat ((y # ys) # runs'')) =
                filter (\<lambda>r. key r = k) (concat runs'')"
          by (simp only: concat.simps filter_append fy append_Nil)
        from l r True show ?thesis unfolding x by simp
      next
        case False
        with IH x show ?thesis by simp
      qed
    qed
  qed
qed

lemma kmerge_mset: "mset (kmerge key runs) = mset (concat runs)"
proof (induction key runs rule: kmerge.induct)
  case (1 key runs)
  show ?case
  proof (cases "pop_min key runs")
    case None
    then show ?thesis by (subst kmerge.simps) (simp add: pop_min_None)
  next
    case (Some p)
    obtain x runs' where p: "p = (x, runs')" by (cases p)
    from "1.IH" [OF Some p [symmetric]] have "mset (kmerge key runs') = mset (concat runs')" .
    with Some p show ?thesis
      by (subst kmerge.simps) (simp add: pop_min_mset [of key runs x runs'])
  qed
qed

lemma kmerge_sorted:
  "\<forall>r\<in>set runs. sorted (map key r) \<Longrightarrow> sorted (map key (kmerge key runs))"
proof (induction key runs rule: kmerge.induct)
  case (1 key runs)
  show ?case
  proof (cases "pop_min key runs")
    case None
    then show ?thesis by (subst kmerge.simps) simp
  next
    case (Some p)
    obtain x runs' where p: "p = (x, runs')" by (cases p)
    note pm = Some [unfolded p]
    from pop_min_sorted [OF pm "1.prems"] have s': "\<forall>r\<in>set runs'. sorted (map key r)" .
    from "1.IH" [OF Some p [symmetric] s'] have IH: "sorted (map key (kmerge key runs'))" .
    have "set (kmerge key runs') = set (concat runs')"
      using kmerge_mset [of key runs'] by (rule mset_eq_setD)
    also have "\<dots> \<subseteq> set (concat runs)"
    proof -
      have "set_mset (mset (concat runs)) = set_mset (add_mset x (mset (concat runs')))"
        using pop_min_mset [OF pm] by simp
      then show ?thesis by auto
    qed
    finally have "\<forall>y\<in>set (kmerge key runs'). key x \<le> key y"
      using pop_min_least [OF pm "1.prems"] by blast
    with IH Some p show ?thesis by (subst kmerge.simps) simp
  qed
qed

lemma kmerge_stable:
  "\<forall>r\<in>set runs. sorted (map key r) \<Longrightarrow>
     filter (\<lambda>r. key r = k) (kmerge key runs) = filter (\<lambda>r. key r = k) (concat runs)"
proof (induction key runs rule: kmerge.induct)
  case (1 key runs)
  show ?case
  proof (cases "pop_min key runs")
    case None
    then show ?thesis by (subst kmerge.simps) (simp add: pop_min_None)
  next
    case (Some p)
    obtain x runs' where p: "p = (x, runs')" by (cases p)
    note pm = Some [unfolded p]
    from pop_min_sorted [OF pm "1.prems"] have s': "\<forall>r\<in>set runs'. sorted (map key r)" .
    from "1.IH" [OF Some p [symmetric] s']
    have IH: "filter (\<lambda>r. key r = k) (kmerge key runs') = filter (\<lambda>r. key r = k) (concat runs')" .
    from pop_min_stable [OF pm "1.prems", of k] IH Some p show ?thesis
      by (subst kmerge.simps) simp
  qed
qed

lemma mset_concat_sorted_runs:
  "mset (concat (map (sort_key key) chs)) = mset (concat chs)"
  by (induction chs) simp_all

lemma filter_concat_sorted_runs:
  "filter (\<lambda>r. key r = k) (concat (map (sort_key key) chs)) = filter (\<lambda>r. key r = k) (concat chs)"
  by (induction chs) (simp_all add: sort_key_stable)

lemma external_sort_core:
  fixes key :: "'a \<Rightarrow> 'k::linorder"
  shows "mset (kmerge key (map (sort_key key) (chunks B xs))) = mset xs"
    and "sorted (map key (kmerge key (map (sort_key key) (chunks B xs))))"
    and "filter (\<lambda>r. key r = k) (kmerge key (map (sort_key key) (chunks B xs)))
           = filter (\<lambda>r. key r = k) xs"
proof -
  have runs: "\<forall>r\<in>set (map (sort_key key) (chunks B xs)). sorted (map key r)" by auto
  show "mset (kmerge key (map (sort_key key) (chunks B xs))) = mset xs"
    by (simp add: kmerge_mset mset_concat_sorted_runs concat_chunks)
  show "sorted (map key (kmerge key (map (sort_key key) (chunks B xs))))"
    using runs by (rule kmerge_sorted)
  show "filter (\<lambda>r. key r = k) (kmerge key (map (sort_key key) (chunks B xs)))
           = filter (\<lambda>r. key r = k) xs"
    by (simp only: kmerge_stable [OF runs] filter_concat_sorted_runs concat_chunks)
qed

section \<open>Count\<close>

text \<open>
  C6. Let the input be the concatenation of its maximal contiguous equal-key groups
  \<open>gs\<close> (each group non-empty, the key tuple \<open>[x.get(k) for k in group_key]\<close> constant
  inside a group and different between neighbouring groups). Then \<open>Count(out)\<close> emits,
  group by group, exactly one row when every key value of the group is truthy and nothing
  otherwise; the emitted row holds the group's key columns and the group's size under
  \<open>out\<close>. A missing column reads as \<open>None\<close>, which is falsy.
\<close>

theorem Count_one_row_per_truthy_group:
  assumes "\<forall>g\<in>set gs. g \<noteq> []"
      and "\<forall>g\<in>set gs. \<forall>r\<in>set (tl g). keyt K r = keyt K (hd g)"
      and "distinct_adj (map (\<lambda>g. keyt K (hd g)) gs)"
  shows "Count out K (concat gs) =
           concat (map (\<lambda>g. if list_all truthy (keyt K (hd g))
                             then [count_row out K (keyt K (hd g)) (length g)] else []) gs)
         \<and> (\<forall>g c. map_of (count_row out K (keyt K (hd g)) (length g)) c =
               (if c = out then Some (VInt (int (length g)))
                else if c \<in> set K then Some (row_get (hd g) c) else None))"
proof -
  have "groupby (keyt K) (concat gs) = map (\<lambda>g. (keyt K (hd g), g)) gs"
    using assms by (rule groupby_concat)
  moreover have "(\<lambda>x. map (row_get x) K) = keyt K"
    by (simp add: keyt_def fun_eq_iff)
  ultimately have "Count out K (concat gs) =
           concat (map (\<lambda>g. if list_all truthy (keyt K (hd g))
                             then [count_row out K (keyt K (hd g)) (length g)] else []) gs)"
    by (simp add: Count_def comp_def)
  then show ?thesis by (simp add: map_of_count_row)
qed

theorem Count_one_row_per_truthy_group_witness:
  "Count ''d'' [''a'']
     [[(''a'', VInt 1), (''b'', VInt 5)], [(''a'', VInt 1), (''b'', VInt 6)],
      [(''a'', VInt 0)], [(''b'', VInt 7)], [(''a'', VStr ''x'')]]
   = [[(''a'', VInt 1), (''d'', VInt 2)], [(''a'', VStr ''x''), (''d'', VInt 1)]]"
proof -
  let ?gs = "[[[(''a'', VInt 1), (''b'', VInt 5)], [(''a'', VInt 1), (''b'', VInt 6)]],
              [[(''a'', VInt 0)]], [[(''b'', VInt 7)]], [[(''a'', VStr ''x'')]]]"
  have h1: "\<forall>g\<in>set ?gs. g \<noteq> []" by simp
  have h2: "\<forall>g\<in>set ?gs. \<forall>r\<in>set (tl g). keyt [''a''] r = keyt [''a''] (hd g)"
    by (simp add: keyt_def row_get_def)
  have h3: "distinct_adj (map (\<lambda>g. keyt [''a''] (hd g)) ?gs)"
    by (simp add: keyt_def row_get_def)
  show ?thesis
    using Count_one_row_per_truthy_group [OF h1 h2 h3, of "''d''"]
    by (simp add: keyt_def row_get_def count_row_def dict_of_items_def)
qed

section \<open>Running a graph without an operation\<close>

text \<open>
  C8. A graph whose root has no operation (\<open>operation\<close> is \<open>None\<close>, as the bare
  constructor leaves it) raises when it is run, whatever its upstream graphs and sources
  are: the generator ends with the exception (Python's \<open>TypeError\<close>, the kind the
  specification calls ENoSource) before any upstream is pulled, and the caller has
  received no row that could be retracted.
\<close>

theorem run_without_operation:
  "run (Graph None gs) kwargs = ([], Some TypeError)"
  by simp

section \<open>Products inside equal-key blocks\<close>




section \<open>Left and right joins are not mirror images\<close>

text \<open>
  C7. \<open>LeftJoiner\<close> and \<open>RightJoiner\<close> never read the suffixes: each merges the two rows
  with the row of its second input written last. On a shared non-key column \<open>v\<close> the left
  join of A with B keeps B's value, the right join of B with A keeps A's value, and neither
  row has a suffixed column.
\<close>

theorem LeftJoiner_RightJoiner_differ:
  "LeftJoiner ''_1'' ''_2'' [''k'']
     [[(''k'', VInt 1), (''v'', VStr ''a'')]] [[(''k'', VInt 1), (''v'', VStr ''x'')]]
   = ([[(''k'', VInt 1), (''v'', VStr ''x'')]], None)
   \<and> RightJoiner ''_2'' ''_1'' [''k'']
     [[(''k'', VInt 1), (''v'', VStr ''x'')]] [[(''k'', VInt 1), (''v'', VStr ''a'')]]
   = ([[(''k'', VInt 1), (''v'', VStr ''a'')]], None)"
  by code_simp

section \<open>Joining with an empty stream\<close>




section \<open>Renaming of colliding columns\<close>

text \<open>
  C2 (as amended). \<open>InnerJoiner\<close> takes the colliding columns \<open>ov\<close> from the first row of
  each input (shared columns that are not keys). For sorted inputs with well-formed keys it
  emits \<open>join_rows ov sa sb a b\<close> for every pair of rows \<open>a\<close>, \<open>b\<close> with equal key tuples.
  Provided no suffixed name \<open>c + sa\<close>, \<open>c + sb\<close> of a colliding column is a column of
  \<open>a\<close> or \<open>b\<close>, and no left-suffixed name equals a right-suffixed one, that row is
  this: a column \<open>c\<close> of \<open>ov\<close> appears as \<open>c + sa\<close> with the left value and as
  \<open>c + sb\<close> with the right value and no longer under its own name (unless that name is
  itself the suffixed name of a colliding column); every other name holds what the plain
  merge of the two rows holds under it (the right value if both rows have it), so no other
  column and no key gets a suffix; every key column is outside \<open>ov\<close> and appears under
  its own name with the value the two rows share. Nothing is stated here about \<open>LeftJoiner\<close>, \<open>RightJoiner\<close> and \<open>OuterJoiner\<close>.
\<close>

theorem InnerJoiner_renamed_columns:
  assumes "\<forall>r\<in>set rows_a. well_keyed keys ts r"
      and "\<forall>r\<in>set rows_b. well_keyed keys ts r"
      and "sorted (map (keyt keys) rows_a)"
      and "sorted (map (keyt keys) rows_b)"
      and "ov = first_overlap keys rows_a rows_b"
      and "a \<in> set rows_a" and "b \<in> set rows_b" and "keyt keys a = keyt keys b"
      and "distinct (map fst a)" and "distinct (map fst b)"
      and "\<forall>c\<in>ov. c @ sa \<notin> fst ` set a \<union> fst ` set b
                \<and> c @ sb \<notin> fst ` set a \<union> fst ` set b"
      and "\<forall>c\<in>ov. \<forall>c'\<in>ov. c @ sa \<noteq> c' @ sb"
  shows "InnerJoiner sa sb keys rows_a rows_b =
           (block_product (join_rows ov sa sb) keys rows_a rows_b, None)
       \<and> (\<forall>c\<in>ov. map_of (join_rows ov sa sb a b) (c @ sa) = map_of a c
                \<and> map_of (join_rows ov sa sb a b) (c @ sb) = map_of b c
                \<and> ((\<forall>c'\<in>ov. c' @ sa \<noteq> c \<and> c' @ sb \<noteq> c) \<longrightarrow>
                     map_of (join_rows ov sa sb a b) c = None))
       \<and> (\<forall>n. n \<notin> ov \<longrightarrow>
                (n \<in> fst ` set a \<union> fst ` set b \<or> (\<forall>c\<in>ov. n \<noteq> c @ sa \<and> n \<noteq> c @ sb)) \<longrightarrow>
                map_of (join_rows ov sa sb a b) n = (map_of a ++ map_of b) n)
       \<and> (\<forall>k\<in>set keys. k \<notin> ov \<and> map_of (join_rows ov sa sb a b) k = map_of a k
                \<and> map_of a k = map_of b k \<and> map_of a k \<noteq> None)"
proof -
  have p1: "InnerJoiner sa sb keys rows_a rows_b =
              (block_product (join_rows ov sa sb) keys rows_a rows_b, None)"
    unfolding assms(5) using assms(1-4) by (rule InnerJoiner_product)
  have p2: "map_of (join_rows ov sa sb a b) (c @ sa) = map_of a c
          \<and> map_of (join_rows ov sa sb a b) (c @ sb) = map_of b c
          \<and> ((\<forall>c'\<in>ov. c' @ sa \<noteq> c \<and> c' @ sb \<noteq> c) \<longrightarrow>
               map_of (join_rows ov sa sb a b) c = None)" if "c \<in> ov" for c
  proof (intro conjI impI)
    from that assms(11) have fresh: "c @ sa \<notin> fst ` set a" "c @ sa \<notin> fst ` set b"
      "c @ sb \<notin> fst ` set a" "c @ sb \<notin> fst ` set b" by simp_all
    from that assms(12) have cross: "\<forall>c'\<in>ov. c' @ sb \<noteq> c @ sa" "\<forall>c'\<in>ov. c' @ sa \<noteq> c @ sb"
      by metis+
    show "map_of (join_rows ov sa sb a b) (c @ sa) = map_of a c"
      using assms(9) that fresh(1,2) cross(1) by (rule join_rows_left_suffixed)
    show "map_of (join_rows ov sa sb a b) (c @ sb) = map_of b c"
      using assms(10) that fresh(3,4) cross(2) by (rule join_rows_right_suffixed)
    assume "\<forall>c'\<in>ov. c' @ sa \<noteq> c \<and> c' @ sb \<noteq> c"
    with that show "map_of (join_rows ov sa sb a b) c = None"
      by (rule join_rows_collision_gone)
  qed
  have p3: "map_of (join_rows ov sa sb a b) n = (map_of a ++ map_of b) n"
    if "n \<notin> ov" "n \<in> fst ` set a \<union> fst ` set b \<or> (\<forall>c\<in>ov. n \<noteq> c @ sa \<and> n \<noteq> c @ sb)" for n
    using assms(9,10) that(1)
  proof (rule join_rows_plain_column)
    show "\<forall>c'\<in>ov. c' @ sa \<noteq> n \<and> c' @ sb \<noteq> n"
    proof
      fix c' assume c': "c' \<in> ov"
      with assms(11) have "c' @ sa \<notin> fst ` set a \<union> fst ` set b"
        "c' @ sb \<notin> fst ` set a \<union> fst ` set b" by simp_all
      with that(2) c' show "c' @ sa \<noteq> n \<and> c' @ sb \<noteq> n" by auto
    qed
  qed
  have p4: "k \<notin> ov \<and> map_of (join_rows ov sa sb a b) k = map_of a k
          \<and> map_of a k = map_of b k \<and> map_of a k \<noteq> None" if "k \<in> set keys" for k
  proof -
    from that have nov: "k \<notin> ov" by (simp add: assms(5) first_overlap_no_key)
    from assms(1,6) have "well_keyed keys ts a" by simp
    from well_keyed_present [OF this that] have ak: "map_of a k \<noteq> None" .
    from assms(2,7) have "well_keyed keys ts b" by simp
    from well_keyed_present [OF this that] have bk: "map_of b k \<noteq> None" .
    from assms(8) that have "row_get a k = row_get b k" by (simp add: keyt_def)
    with ak bk have eq: "map_of a k = map_of b k" by (auto simp: row_get_def)
    from ak have "k \<in> fst ` set a \<union> fst ` set b \<or> (\<forall>c\<in>ov. k \<noteq> c @ sa \<and> k \<noteq> c @ sb)"
      by (simp add: map_of_eq_None_iff)
    from p3 [OF nov this] eq ak bk nov show ?thesis by (auto simp: map_add_def)
  qed
  show ?thesis
  proof (intro conjI ballI allI impI)
    show "InnerJoiner sa sb keys rows_a rows_b =
           (block_product (join_rows ov sa sb) keys rows_a rows_b, None)" by (rule p1)
  next
    fix c assume "c \<in> ov"
    note r = p2 [OF this]
    from r show "map_of (join_rows ov sa sb a b) (c @ sa) = map_of a c" by (rule conjunct1)
    from r show "map_of (join_rows ov sa sb a b) (c @ sb) = map_of b c" by blast
    assume "\<forall>c'\<in>ov. c' @ sa \<noteq> c \<and> c' @ sb \<noteq> c"
    with r show "map_of (join_rows ov sa sb a b) c = None" by blast
  next
    fix n assume "n \<notin> ov"
      and "n \<in> fst ` set a \<union> fst ` set b \<or> (\<forall>c\<in>ov. n \<noteq> c @ sa \<and> n \<noteq> c @ sb)"
    then show "map_of (join_rows ov sa sb a b) n = (map_of a ++ map_of b) n" by (rule p3)
  next
    fix k assume "k \<in> set keys"
    from p4 [OF this]
    show "k \<notin> ov" and "map_of (join_rows ov sa sb a b) k = map_of a k"
      and "map_of a k = map_of b k" and "map_of a k \<noteq> None" by blast+
  qed
qed

theorem InnerJoiner_renamed_columns_witness:
  "map_of (join_rows
      (first_overlap [''k'']
         [[(''k'', VInt 1), (''v'', VStr ''a'')], [(''k'', VInt 2), (''v'', VStr ''b'')]]
         [[(''k'', VInt 1), (''v'', VStr ''x'')], [(''k'', VInt 3), (''v'', VStr ''z'')]])
      ''_1'' ''_2'' [(''k'', VInt 1), (''v'', VStr ''a'')] [(''k'', VInt 1), (''v'', VStr ''x'')])
     ''v_1'' = Some (VStr ''a'')
   \<and> map_of (join_rows
      (first_overlap [''k'']
         [[(''k'', VInt 1), (''v'', VStr ''a'')], [(''k'', VInt 2), (''v'', VStr ''b'')]]
         [[(''k'', VInt 1), (''v'', VStr ''x'')], [(''k'', VInt 3), (''v'', VStr ''z'')]])
      ''_1'' ''_2'' [(''k'', VInt 1), (''v'', VStr ''a'')] [(''k'', VInt 1), (''v'', VStr ''x'')])
     ''v_2'' = Some (VStr ''x'')
   \<and> map_of (join_rows
      (first_overlap [''k'']
         [[(''k'', VInt 1), (''v'', VStr ''a'')], [(''k'', VInt 2), (''v'', VStr ''b'')]]
         [[(''k'', VInt 1), (''v'', VStr ''x'')], [(''k'', VInt 3), (''v'', VStr ''z'')]])
      ''_1'' ''_2'' [(''k'', VInt 1), (''v'', VStr ''a'')] [(''k'', VInt 1), (''v'', VStr ''x'')])
     ''v'' = None"
proof -
  let ?A = "[[(''k'', VInt 1), (''v'', VStr ''a'')], [(''k'', VInt 2), (''v'', VStr ''b'')]]"
  let ?B = "[[(''k'', VInt 1), (''v'', VStr ''x'')], [(''k'', VInt 3), (''v'', VStr ''z'')]]"
  let ?a = "[(''k'', VInt 1), (''v'', VStr ''a'')]"
  let ?b = "[(''k'', VInt 1), (''v'', VStr ''x'')]"
  let ?ov = "first_overlap [''k''] ?A ?B"
  have h1: "\<forall>r\<in>set ?A. well_keyed [''k''] [KInt] r" by code_simp
  have h2: "\<forall>r\<in>set ?B. well_keyed [''k''] [KInt] r" by code_simp
  have h3: "sorted (map (keyt [''k'']) ?A)" by code_simp
  have h4: "sorted (map (keyt [''k'']) ?B)" by code_simp
  have h6: "?a \<in> set ?A" by simp
  have h7: "?b \<in> set ?B" by simp
  have h8: "keyt [''k''] ?a = keyt [''k''] ?b" by code_simp
  have h9: "distinct (map fst ?a)" by simp
  have h10: "distinct (map fst ?b)" by simp
  have h11: "\<forall>c\<in>?ov. c @ ''_1'' \<notin> fst ` set ?a \<union> fst ` set ?b
                    \<and> c @ ''_2'' \<notin> fst ` set ?a \<union> fst ` set ?b" by code_simp
  have h13: "\<forall>c'\<in>?ov. c' @ ''_1'' \<noteq> ''v'' \<and> c' @ ''_2'' \<noteq> ''v''" by code_simp
  have h12: "\<forall>c\<in>?ov. \<forall>c'\<in>?ov. c @ ''_1'' \<noteq> c' @ ''_2''" by code_simp
  have v: "''v'' \<in> ?ov" by code_simp
  from InnerJoiner_renamed_columns [OF h1 h2 h3 h4 refl h6 h7 h8 h9 h10 h11 h12]
  have "\<forall>c\<in>?ov. map_of (join_rows ?ov ''_1'' ''_2'' ?a ?b) (c @ ''_1'') = map_of ?a c
              \<and> map_of (join_rows ?ov ''_1'' ''_2'' ?a ?b) (c @ ''_2'') = map_of ?b c
              \<and> ((\<forall>c'\<in>?ov. c' @ ''_1'' \<noteq> c \<and> c' @ ''_2'' \<noteq> c) \<longrightarrow>
                   map_of (join_rows ?ov ''_1'' ''_2'' ?a ?b) c = None)"
    by (elim conjE)
  from this v
  have "map_of (join_rows ?ov ''_1'' ''_2'' ?a ?b) (''v'' @ ''_1'') = map_of ?a ''v''
      \<and> map_of (join_rows ?ov ''_1'' ''_2'' ?a ?b) (''v'' @ ''_2'') = map_of ?b ''v''
      \<and> ((\<forall>c'\<in>?ov. c' @ ''_1'' \<noteq> ''v'' \<and> c' @ ''_2'' \<noteq> ''v'') \<longrightarrow>
           map_of (join_rows ?ov ''_1'' ''_2'' ?a ?b) ''v'' = None)"
    by (rule bspec)
  with h13
  have "map_of (join_rows ?ov ''_1'' ''_2'' ?a ?b) (''v'' @ ''_1'') = map_of ?a ''v''
      \<and> map_of (join_rows ?ov ''_1'' ''_2'' ?a ?b) (''v'' @ ''_2'') = map_of ?b ''v''
      \<and> map_of (join_rows ?ov ''_1'' ''_2'' ?a ?b) ''v'' = None"
    by blast
  then show ?thesis by simp
qed

text \<open>
  C2 as stated fails. For one left and one right row that share the non-key column
  \<open>v\<close>, the left and the right join emit one \<open>v\<close> holding the right value and the outer
  join emits one \<open>v\<close> holding the left value; none of them emits \<open>v_1\<close> or \<open>v_2\<close>.
  The inner join renames only what the two first rows share: where the first left row has
  no \<open>v\<close>, the later pair that shares \<open>v\<close> is emitted with one \<open>v\<close> holding the right
  value. And where a left row holds both \<open>v\<close> and \<open>v_1\<close>, its \<open>v\<close> is renamed to
  \<open>v_1\<close> and then overwritten by its own \<open>v_1\<close>, so the left value of the colliding
  column is lost; with equal suffixes the left \<open>v_x\<close> is overwritten by the right one.
\<close>

theorem joiners_without_renaming:
  "LeftJoiner ''_1'' ''_2'' [''k'']
     [[(''k'', VInt 1), (''v'', VStr ''a''), (''p'', VInt 5)]]
     [[(''k'', VInt 1), (''v'', VStr ''x''), (''q'', VInt 6)]]
   = ([[(''k'', VInt 1), (''v'', VStr ''x''), (''p'', VInt 5), (''q'', VInt 6)]], None)
   \<and> RightJoiner ''_1'' ''_2'' [''k'']
     [[(''k'', VInt 1), (''v'', VStr ''a''), (''p'', VInt 5)]]
     [[(''k'', VInt 1), (''v'', VStr ''x''), (''q'', VInt 6)]]
   = ([[(''k'', VInt 1), (''v'', VStr ''x''), (''p'', VInt 5), (''q'', VInt 6)]], None)
   \<and> OuterJoiner ''_1'' ''_2'' [''k'']
     [[(''k'', VInt 1), (''v'', VStr ''a''), (''p'', VInt 5)]]
     [[(''k'', VInt 1), (''v'', VStr ''x''), (''q'', VInt 6)]]
   = ([[(''k'', VInt 1), (''v'', VStr ''a''), (''p'', VInt 5), (''q'', VInt 6)]], None)
   \<and> InnerJoiner ''_1'' ''_2'' [''k'']
     [[(''k'', VInt 1)], [(''k'', VInt 2), (''v'', VStr ''a'')]]
     [[(''k'', VInt 1), (''v'', VStr ''x'')], [(''k'', VInt 2), (''v'', VStr ''y'')]]
   = ([[(''k'', VInt 1), (''v'', VStr ''x'')], [(''k'', VInt 2), (''v'', VStr ''y'')]], None)
   \<and> InnerJoiner ''_1'' ''_2'' [''k'']
     [[(''k'', VInt 1), (''v'', VStr ''a''), (''v_1'', VStr ''z'')]]
     [[(''k'', VInt 1), (''v'', VStr ''x'')]]
   = ([[(''k'', VInt 1), (''v_1'', VStr ''z''), (''v_2'', VStr ''x'')]], None)
   \<and> InnerJoiner ''_x'' ''_x'' [''k'']
     [[(''k'', VInt 1), (''v'', VStr ''a'')]]
     [[(''k'', VInt 1), (''v'', VStr ''x'')]]
   = ([[(''k'', VInt 1), (''v_x'', VStr ''x'')]], None)"
  by code_simp

section \<open>The colliding columns are fixed by the first rows\<close>

text \<open>
  C10. The joiners take the set of colliding columns once, from the first row \<open>a0\<close> of
  the left input and the first row \<open>b0\<close> of the right input. Let \<open>c\<close> be a column that
  is not in both first rows (and is not itself a suffixed colliding name). Whatever the
  later rows hold, every row \<open>InnerJoiner\<close> emits is \<open>join_rows\<close> of a left and a right
  row under that one set, and \<open>c\<close> is treated as non-colliding in it: it stays under its
  own name, the right value overwriting the left one. \<open>LeftJoiner\<close> and \<open>RightJoiner\<close>
  compute the set but rename nothing: each emitted row is a row of the driving input or
  the plain merge of a left and a right row.
\<close>

theorem overlap_fixed_by_first_rows:
  assumes "rows_a = a0 # as" and "rows_b = b0 # bs"
      and "\<forall>r\<in>set rows_a \<union> set rows_b. distinct (map fst r)"
      and "c \<notin> fst ` set a0 \<or> c \<notin> fst ` set b0"
      and "\<forall>c'\<in>overlapping_columns keys a0 b0. c' @ sa \<noteq> c \<and> c' @ sb \<noteq> c"
  shows "(\<forall>row\<in>set (fst (InnerJoiner sa sb keys rows_a rows_b)).
            \<exists>a\<in>set rows_a. \<exists>b\<in>set rows_b.
              row = join_rows (overlapping_columns keys a0 b0) sa sb a b
              \<and> map_of row c = (map_of a ++ map_of b) c)
       \<and> (\<forall>row\<in>set (fst (LeftJoiner sa sb keys rows_a rows_b)).
            row \<in> set rows_a \<or> (\<exists>a\<in>set rows_a. \<exists>b\<in>set rows_b.
              row = dict_merge a b \<and> map_of row = map_of a ++ map_of b))
       \<and> (\<forall>row\<in>set (fst (RightJoiner sa sb keys rows_a rows_b)).
            row \<in> set rows_b \<or> (\<exists>a\<in>set rows_a. \<exists>b\<in>set rows_b.
              row = dict_merge a b \<and> map_of row = map_of a ++ map_of b))"
proof -
  let ?ov = "overlapping_columns keys a0 b0"
  have ov: "first_overlap keys rows_a rows_b = ?ov"
    by (simp add: first_overlap_def assms(1,2))
  have c: "c \<notin> ?ov" using assms(4) by (auto simp: overlapping_columns_def)
  have plain: "map_of (join_rows ?ov sa sb a b) c = (map_of a ++ map_of b) c"
    if "a \<in> set rows_a" "b \<in> set rows_b" for a b
    using that assms(3) c assms(5) by (intro join_rows_plain_column) auto
  have merge: "map_of (dict_merge a b) = map_of a ++ map_of b" if "b \<in> set rows_b" for a b
    using that assms(3) by (intro map_of_dict_merge_dict) auto
  have "\<forall>row\<in>set (fst (InnerJoiner sa sb keys rows_a rows_b)).
            \<exists>a\<in>set rows_a. \<exists>b\<in>set rows_b.
              row = join_rows ?ov sa sb a b \<and> map_of row c = (map_of a ++ map_of b) c"
  proof
    fix row assume "row \<in> set (fst (InnerJoiner sa sb keys rows_a rows_b))"
    with InnerJoiner_rows [of sa sb keys rows_a rows_b] obtain a b where
      ab: "a \<in> set rows_a" "b \<in> set rows_b" "row = join_rows ?ov sa sb a b"
      unfolding ov by blast
    from plain [OF ab(1,2)] ab
    show "\<exists>a\<in>set rows_a. \<exists>b\<in>set rows_b.
              row = join_rows ?ov sa sb a b \<and> map_of row c = (map_of a ++ map_of b) c"
      by blast
  qed
  moreover have "\<forall>row\<in>set (fst (LeftJoiner sa sb keys rows_a rows_b)).
            row \<in> set rows_a \<or> (\<exists>a\<in>set rows_a. \<exists>b\<in>set rows_b.
              row = dict_merge a b \<and> map_of row = map_of a ++ map_of b)"
    using LeftJoiner_rows [of sa sb keys rows_a rows_b] merge by blast
  moreover have "\<forall>row\<in>set (fst (RightJoiner sa sb keys rows_a rows_b)).
            row \<in> set rows_b \<or> (\<exists>a\<in>set rows_a. \<exists>b\<in>set rows_b.
              row = dict_merge a b \<and> map_of row = map_of a ++ map_of b)"
    using RightJoiner_rows [of sa sb keys rows_a rows_b] merge by blast
  ultimately show ?thesis by blast
qed

theorem overlap_fixed_by_first_rows_witness:
  "\<exists>a\<in>set [[(''k'', VInt 1), (''w'', VInt 0)],
             [(''k'', VInt 2), (''w'', VInt 1), (''v'', VStr ''a'')]].
   \<exists>b\<in>set [[(''k'', VInt 1), (''w'', VInt 9), (''v'', VStr ''x'')],
             [(''k'', VInt 2), (''w'', VInt 8), (''v'', VStr ''y'')]].
     [(''k'', VInt 2), (''w_1'', VInt 1), (''v'', VStr ''y''), (''w_2'', VInt 8)]
       = join_rows (overlapping_columns [''k''] [(''k'', VInt 1), (''w'', VInt 0)]
                      [(''k'', VInt 1), (''w'', VInt 9), (''v'', VStr ''x'')])
           ''_1'' ''_2'' a b
     \<and> map_of [(''k'', VInt 2), (''w_1'', VInt 1), (''v'', VStr ''y''), (''w_2'', VInt 8)] ''v''
         = (map_of a ++ map_of b) ''v''"
proof -
  let ?a0 = "[(''k'', VInt 1), (''w'', VInt 0)]"
  let ?as = "[[(''k'', VInt 2), (''w'', VInt 1), (''v'', VStr ''a'')]]"
  let ?b0 = "[(''k'', VInt 1), (''w'', VInt 9), (''v'', VStr ''x'')]"
  let ?bs = "[[(''k'', VInt 2), (''w'', VInt 8), (''v'', VStr ''y'')]]"
  let ?row = "[(''k'', VInt 2), (''w_1'', VInt 1), (''v'', VStr ''y''), (''w_2'', VInt 8)]"
  have h3: "\<forall>r\<in>set (?a0 # ?as) \<union> set (?b0 # ?bs). distinct (map fst r)" by simp
  have h4: "''v'' \<notin> fst ` set ?a0 \<or> ''v'' \<notin> fst ` set ?b0" by simp
  have h5: "\<forall>c'\<in>overlapping_columns [''k''] ?a0 ?b0. c' @ ''_1'' \<noteq> ''v'' \<and> c' @ ''_2'' \<noteq> ''v''"
    by code_simp
  have emitted: "?row \<in> set (fst (InnerJoiner ''_1'' ''_2'' [''k''] (?a0 # ?as) (?b0 # ?bs)))"
    by code_simp
  from overlap_fixed_by_first_rows [OF refl refl h3 h4 h5]
  have "\<forall>row\<in>set (fst (InnerJoiner ''_1'' ''_2'' [''k''] (?a0 # ?as) (?b0 # ?bs))).
          \<exists>a\<in>set (?a0 # ?as). \<exists>b\<in>set (?b0 # ?bs).
            row = join_rows (overlapping_columns [''k''] ?a0 ?b0) ''_1'' ''_2'' a b
            \<and> map_of row ''v'' = (map_of a ++ map_of b) ''v''"
    by (rule conjunct1)
  from this emitted show ?thesis by (rule bspec)
qed

section \<open>Split and empty tokens\<close>

text \<open>
  C5. \<open>Split\<close> skips the token before a separator only when that separator is at
  position 0, and skips the rest after the last separator when it is empty. A token
  between two neighbouring separators is empty as well, and is emitted: with the default
  separator the text \<open>a  b\<close> (two spaces) gives three rows, the middle one holding the
  empty string, where the claim counts two non-empty tokens.
\<close>

theorem Split_emits_empty_token:
  "Split ''text'' is_space [(''doc_id'', VInt 1), (''text'', VStr ''a  b'')]
   = ([[(''doc_id'', VInt 1), (''text'', VStr ''a'')],
       [(''doc_id'', VInt 1), (''text'', VStr [])],
       [(''doc_id'', VInt 1), (''text'', VStr ''b'')]], None)"
  by code_simp

section \<open>Mappers that change the caller's rows\<close>

text \<open>
  C9. Let the source hold the distinct row objects \<open>rs\<close>. Mapping \<open>FilterPunctuation\<close>,
  \<open>LowerCase\<close> or \<open>BinaryOperation\<close> over it yields exactly the references \<open>rs\<close>, the
  very objects of the source and no copies, and when the stream has been consumed every
  one of these objects holds the new value in the column, while all other objects are
  untouched. For the first two mappers this is stated where every row holds a string in
  the column; for \<open>BinaryOperation\<close> where the operation returns a value on every row,
  whether the column is new or already there.
\<close>

theorem mappers_assign_in_place:
  assumes "distinct rs"
  shows "((\<forall>r\<in>set rs. map_of (h r) column = Some (VStr (text r))) \<longrightarrow>
           Map_call (FilterPunctuation column) rs h =
             ((rs, None),
              (\<lambda>r. if r \<in> set rs
                   then AList.update column
                          (VStr (filter (\<lambda>c. \<not> is_punctuation c) (text r))) (h r)
                   else h r))
         \<and> Map_call (LowerCase column) rs h =
             ((rs, None),
              (\<lambda>r. if r \<in> set rs
                   then AList.update column (VStr (map lower_char (text r))) (h r)
                   else h r)))
       \<and> ((\<forall>r\<in>set rs. op (h r) = Inr (res r)) \<longrightarrow>
           Map_call (BinaryOperation op column) rs h =
             ((rs, None),
              (\<lambda>r. if r \<in> set rs then AList.update column (res r) (h r) else h r)))"
proof (intro conjI impI)
  assume str: "\<forall>r\<in>set rs. map_of (h r) column = Some (VStr (text r))"
  show "Map_call (FilterPunctuation column) rs h =
           ((rs, None),
            (\<lambda>r. if r \<in> set rs
                 then AList.update column (VStr (filter (\<lambda>c. \<not> is_punctuation c) (text r))) (h r)
                 else h r))"
    using assms
  proof (rule Map_call_in_place)
    fix r h' assume "r \<in> set rs" "h' r = h r"
    with str show "FilterPunctuation column r h' =
        (([r], None),
         h'(r := AList.update column (VStr (filter (\<lambda>c. \<not> is_punctuation c) (text r))) (h r)))"
      by (simp add: FilterPunctuation_def row_item_def)
  qed
  show "Map_call (LowerCase column) rs h =
           ((rs, None),
            (\<lambda>r. if r \<in> set rs
                 then AList.update column (VStr (map lower_char (text r))) (h r)
                 else h r))"
    using assms
  proof (rule Map_call_in_place)
    fix r h' assume "r \<in> set rs" "h' r = h r"
    with str show "LowerCase column r h' =
        (([r], None), h'(r := AList.update column (VStr (map lower_char (text r))) (h r)))"
      by (simp add: LowerCase_def row_item_def)
  qed
next
  assume op: "\<forall>r\<in>set rs. op (h r) = Inr (res r)"
  show "Map_call (BinaryOperation op column) rs h =
           ((rs, None),
            (\<lambda>r. if r \<in> set rs then AList.update column (res r) (h r) else h r))"
    using assms
  proof (rule Map_call_in_place)
    fix r h' assume "r \<in> set rs" "h' r = h r"
    with op show "BinaryOperation op column r h' =
        (([r], None), h'(r := AList.update column (res r) (h r)))"
      by (simp add: BinaryOperation_def)
  qed
qed

theorem mappers_assign_in_place_witness:
  "fst (Map_call (FilterPunctuation ''text'') [0, 1]
          (\<lambda>r. if r = 0 then [(''text'', VStr ''Hello, World!'')] else [(''text'', VStr ''Bye!'')]))
     = ([0, 1], None)
   \<and> snd (Map_call (FilterPunctuation ''text'') [0, 1]
          (\<lambda>r. if r = 0 then [(''text'', VStr ''Hello, World!'')] else [(''text'', VStr ''Bye!'')])) 0
     = [(''text'', VStr ''Hello World'')]
   \<and> snd (Map_call (LowerCase ''text'') [0, 1]
          (\<lambda>r. if r = 0 then [(''text'', VStr ''Hello, World!'')] else [(''text'', VStr ''Bye!'')])) 0
     = [(''text'', VStr ''hello, world!'')]
   \<and> fst (Map_call (BinaryOperation (\<lambda>row. Inr (VInt (int (length row)))) ''n'') [0, 1]
          (\<lambda>r. if r = 0 then [(''text'', VStr ''Hello, World!'')] else [(''text'', VStr ''Bye!'')]))
     = ([0, 1], None)
   \<and> snd (Map_call (BinaryOperation (\<lambda>row. Inr (VInt (int (length row)))) ''n'') [0, 1]
          (\<lambda>r. if r = 0 then [(''text'', VStr ''Hello, World!'')] else [(''text'', VStr ''Bye!'')])) 0
     = [(''text'', VStr ''Hello, World!''), (''n'', VInt 1)]"
proof -
  let ?h = "\<lambda>r::nat. if r = 0 then [(''text'', VStr ''Hello, World!'')] else [(''text'', VStr ''Bye!'')]"
  let ?text = "\<lambda>r::nat. if r = 0 then ''Hello, World!'' else ''Bye!''"
  let ?op = "\<lambda>row::row. (Inr (VInt (int (length row))) :: error + val)"
  let ?res = "\<lambda>r::nat. VInt 1"
  have h1: "distinct [0, 1::nat]" by simp
  have h2: "\<forall>r\<in>set [0, 1]. map_of (?h r) ''text'' = Some (VStr (?text r))" by simp
  have h3: "\<forall>r\<in>set [0, 1]. ?op (?h r) = Inr (?res r)" by simp
  have mem: "(0::nat) \<in> set [0, 1]" by simp
  have e1: "AList.update ''text'' (VStr (filter (\<lambda>c. \<not> is_punctuation c) (?text 0))) (?h 0)
              = [(''text'', VStr ''Hello World'')]" by code_simp
  have e2: "AList.update ''text'' (VStr (map lower_char (?text 0))) (?h 0)
              = [(''text'', VStr ''hello, world!'')]" by code_simp
  have e3: "AList.update ''n'' (?res 0) (?h 0)
              = [(''text'', VStr ''Hello, World!''), (''n'', VInt 1)]" by code_simp
  note m = mappers_assign_in_place [OF h1, of ?h "''text''" ?text]
  note m' = mappers_assign_in_place [OF h1, of ?h "''n''" _ ?op ?res]
  have r1: "Map_call (FilterPunctuation ''text'') [0, 1] ?h =
          (([0, 1], None),
           (\<lambda>r. if r \<in> set [0, 1]
                then AList.update ''text'' (VStr (filter (\<lambda>c. \<not> is_punctuation c) (?text r))) (?h r)
                else ?h r))"
    using m h2 by blast
  have r2: "Map_call (LowerCase ''text'') [0, 1] ?h =
          (([0, 1], None),
           (\<lambda>r. if r \<in> set [0, 1]
                then AList.update ''text'' (VStr (map lower_char (?text r))) (?h r)
                else ?h r))"
    using m h2 by blast
  have r3: "Map_call (BinaryOperation ?op ''n'') [0, 1] ?h =
          (([0, 1], None),
           (\<lambda>r. if r \<in> set [0, 1] then AList.update ''n'' (?res r) (?h r) else ?h r))"
    using m' h3 by blast
  have "fst (Map_call (FilterPunctuation ''text'') [0, 1] ?h) = ([0, 1], None)"
    by (simp only: r1 fst_conv)
  moreover have "snd (Map_call (FilterPunctuation ''text'') [0, 1] ?h) 0
                   = [(''text'', VStr ''Hello World'')]"
    by (simp only: r1 snd_conv mem if_True e1)
  moreover have "snd (Map_call (LowerCase ''text'') [0, 1] ?h) 0
                   = [(''text'', VStr ''hello, world!'')]"
    by (simp only: r2 snd_conv mem if_True e2)
  moreover have "fst (Map_call (BinaryOperation ?op ''n'') [0, 1] ?h) = ([0, 1], None)"
    by (simp only: r3 fst_conv)
  moreover have "snd (Map_call (BinaryOperation ?op ''n'') [0, 1] ?h) 0
                   = [(''text'', VStr ''Hello, World!''), (''n'', VInt 1)]"
    by (simp only: r3 snd_conv mem if_True e3)
  ultimately show ?thesis by (intro conjI)
qed

section \<open>Sorting a stream\<close>

text \<open>
  C4. Let the upstream of \<open>.sort(keys)\<close> deliver the rows \<open>rows\<close> and end normally, every
  row holding every key column, and let the key tuples be comparable with each other. Then
  the sorted stream ends normally, is a permutation of \<open>rows\<close>, is non-decreasing in the
  lexicographic order of the key tuples (no row is followed by one whose key tuple is
  smaller in Python's comparison), and is stable: for every key tuple, the rows that carry
  it come out in the order in which they came in. This holds for every chunk bound \<open>B\<close>.
\<close>

theorem sort_is_stable_sorted_permutation:
  assumes "run g kwargs = (rows, None)"
      and "\<forall>r\<in>set rows. \<forall>k\<in>set keys. map_of r k \<noteq> None"
      and "comparable_keys keys rows"
  shows "snd (run (graph_sort B g keys) kwargs) = None
       \<and> mset (fst (run (graph_sort B g keys) kwargs)) = mset rows
       \<and> sorted_wrt (\<lambda>r s. tuple_lt (keyt keys s) (keyt keys r) = Inr False)
            (fst (run (graph_sort B g keys) kwargs))
       \<and> (\<forall>key. filter (\<lambda>r. keyt keys r = key) (fst (run (graph_sort B g keys) kwargs))
                  = filter (\<lambda>r. keyt keys r = key) rows)"
proof -
  let ?out = "kmerge (keyt keys) (map (sort_key (keyt keys)) (chunks B rows))"
  have "\<forall>r\<in>set rows. key_of keys r = Inr (keyt keys r)"
    using assms(2) by (simp add: key_of_present)
  then have "\<not> (\<exists>r\<in>set rows. key_of keys r = Inl KeyError)" by simp
  then have out: "run (graph_sort B g keys) kwargs = (?out, None)"
    using assms(3) by (simp add: graph_sort_def ExternalSort_def assms(1))
  have perm: "mset ?out = mset rows" by (rule external_sort_core(1))
  then have set_out: "set ?out = set rows" by (rule mset_eq_setD)
  have "sorted_wrt (\<lambda>r s. keyt keys r \<le> keyt keys s) ?out"
    using external_sort_core(2) [of "keyt keys" B rows] by (simp add: sorted_map)
  then have "sorted_wrt (\<lambda>r s. tuple_lt (keyt keys s) (keyt keys r) = Inr False) ?out"
  proof (rule sorted_wrt_mono_rel [rotated])
    fix r s assume "r \<in> set ?out" "s \<in> set ?out" and le: "keyt keys r \<le> keyt keys s"
    with set_out assms(3) have "tuple_lt (keyt keys s) (keyt keys r) \<noteq> Inl TypeError"
      by (simp add: comparable_keys_def)
    then have "tuple_lt (keyt keys s) (keyt keys r) = Inr (keyt keys s < keyt keys r)"
      by (rule tuple_lt_order)
    with le show "tuple_lt (keyt keys s) (keyt keys r) = Inr False" by simp
  qed
  with out perm show ?thesis
    by (simp add: external_sort_core(3))
qed

theorem sort_is_stable_sorted_permutation_witness:
  "run (graph_sort 2 (graph_from_iter ''test'') [''text''])
       [''test'' \<mapsto> ([[(''test_id'', VInt 1), (''text'', VStr ''b'')],
                     [(''test_id'', VInt 2), (''text'', VStr ''c'')],
                     [(''test_id'', VInt 3), (''text'', VStr ''a'')]], None)]
     = ([[(''test_id'', VInt 3), (''text'', VStr ''a'')],
         [(''test_id'', VInt 1), (''text'', VStr ''b'')],
         [(''test_id'', VInt 2), (''text'', VStr ''c'')]], None)
   \<and> mset (fst (run (graph_sort 2 (graph_from_iter ''test'') [''text''])
       [''test'' \<mapsto> ([[(''test_id'', VInt 1), (''text'', VStr ''b'')],
                     [(''test_id'', VInt 2), (''text'', VStr ''c'')],
                     [(''test_id'', VInt 3), (''text'', VStr ''a'')]], None)]))
     = mset [[(''test_id'', VInt 1), (''text'', VStr ''b'')],
             [(''test_id'', VInt 2), (''text'', VStr ''c'')],
             [(''test_id'', VInt 3), (''text'', VStr ''a'')]]
   \<and> sorted_wrt (\<lambda>r s. tuple_lt (keyt [''text''] s) (keyt [''text''] r) = Inr False)
       (fst (run (graph_sort 2 (graph_from_iter ''test'') [''text''])
       [''test'' \<mapsto> ([[(''test_id'', VInt 1), (''text'', VStr ''b'')],
                     [(''test_id'', VInt 2), (''text'', VStr ''c'')],
                     [(''test_id'', VInt 3), (''text'', VStr ''a'')]], None)]))"
proof -
  let ?rows = "[[(''test_id'', VInt 1), (''text'', VStr ''b'')],
                [(''test_id'', VInt 2), (''text'', VStr ''c'')],
                [(''test_id'', VInt 3), (''text'', VStr ''a'')]]"
  let ?kw = "[''test'' \<mapsto> (?rows, None)]"
  have h1: "run (graph_from_iter ''test'') ?kw = (?rows, None)"
    by (simp add: graph_from_iter_def ReadIterFactory_def)
  have h2: "\<forall>r\<in>set ?rows. \<forall>k\<in>set [''text'']. map_of r k \<noteq> None" by simp
  have h3: "comparable_keys [''text''] ?rows" by code_simp
  have e: "ExternalSort 2 [''text''] (?rows, None)
     = ([[(''test_id'', VInt 3), (''text'', VStr ''a'')],
         [(''test_id'', VInt 1), (''text'', VStr ''b'')],
         [(''test_id'', VInt 2), (''text'', VStr ''c'')]], None)"
    by code_simp
  have "run (graph_sort 2 (graph_from_iter ''test'') [''text'']) ?kw
     = ([[(''test_id'', VInt 3), (''text'', VStr ''a'')],
         [(''test_id'', VInt 1), (''text'', VStr ''b'')],
         [(''test_id'', VInt 2), (''text'', VStr ''c'')]], None)"
    by (simp add: graph_sort_def h1 e)
  with sort_is_stable_sorted_permutation [OF h1 h2 h3, of 2] show ?thesis by blast
qed

end
